theory Spec2Isabelle
  imports Main "HOL-Library.Sublist" "HOL-Library.AList"
begin

section \<open>Data model\<close>

text \<open>
  Python strings are sequences of Unicode code points; \<open>len\<close> counts code points.
  A string is therefore a list of code points, each a natural number
  (\<open>0x9375\<close> is the kanji of the spec's examples, 9 the tab, 10 the line feed,
  13 the carriage return, 32 the space).
\<close>

type_synonym ustring = "nat list"

text \<open>
  An lxml element: its qualified tag (written with the document's prefix, as
  \<open>etree.tostring\<close> prints it), its attributes in order, its text (the empty
  string stands for \<open>None\<close> too), its children in order and its tail, the text
  between its end and the next element (empty for \<open>None\<close>). An element moves, is
  copied and is removed together with its tail.
\<close>

datatype xml = Elem (tag: string) (attrib: "(string \<times> string) list") (etext: ustring)
  (children: "xml list") (tail: ustring)

text \<open>One entry of \<open>ruby_settings\<close>: the dict \<open>{'word': ..., 'ruby': ...}\<close>.\<close>

record setting =
  word :: ustring
  ruby :: ustring

text \<open>
  The dicts \<open>global_applied\<close> and \<open>items_applied_on_page\<close>, from word to flag.
  Every word that is looked up is a key (both dicts are built from the settings the loop
  iterates over), so a lookup never raises \<open>KeyError\<close>.
\<close>

type_synonym tracker = "ustring \<rightharpoonup> bool"

definition fresh_tracker :: "setting list \<Rightarrow> tracker" where
  "fresh_tracker settings = map_of (map (\<lambda>item. (word item, False)) settings)"

definition applied :: "tracker \<Rightarrow> ustring \<Rightarrow> bool" where
  "applied d w = (d w = Some True)"

text \<open>
  The program has no \<open>raise\<close> of its own. The one exception that its calls raise on
  strings is the \<open>ValueError\<close> of lxml, which refuses to store a text that is not
  XML-compatible (see \<open>set_text\<close>). A result is \<open>Inl\<close> of the error or \<open>Inr\<close>
  of the value returned.
\<close>

datatype error = ValueError

section \<open>The lxml operations the program calls\<close>

definition OxmlElement :: "string \<Rightarrow> xml" where
  "OxmlElement t = Elem t [] [] [] []"

definition append :: "xml \<Rightarrow> xml \<Rightarrow> xml" where
  "append parent child =
     Elem (tag parent) (attrib parent) (etext parent) (children parent @ [child]) (tail parent)"

definition set_attr :: "xml \<Rightarrow> string \<Rightarrow> string \<Rightarrow> xml" where
  "set_attr e k v = Elem (tag e) (AList.update k v (attrib e)) (etext e) (children e) (tail e)"

text \<open>
  \<open>element.text = s\<close>. lxml encodes the string and raises \<open>ValueError\<close> ("All
  strings must be XML compatible: Unicode or ASCII, no NULL bytes or control
  characters") unless every code point is a tab, a line feed, a carriage return or at
  least U+0020, and is neither a surrogate nor U+FFFE nor U+FFFF (a surrogate fails
  in the encoding already, with a \<open>UnicodeEncodeError\<close>, which is a \<open>ValueError\<close>).
\<close>

definition xml_char :: "nat \<Rightarrow> bool" where
  "xml_char c = ((c = 9 \<or> c = 10 \<or> c = 13 \<or> 32 \<le> c)
     \<and> \<not> (0xD800 \<le> c \<and> c \<le> 0xDFFF) \<and> c \<noteq> 0xFFFE \<and> c \<noteq> 0xFFFF)"

definition xml_compatible :: "ustring \<Rightarrow> bool" where
  "xml_compatible s = list_all xml_char s"

definition set_text :: "xml \<Rightarrow> ustring \<Rightarrow> error + xml" where
  "set_text e t = (if xml_compatible t
                   then Inr (Elem (tag e) (attrib e) t (children e) (tail e))
                   else Inl ValueError)"

definition set_children :: "xml \<Rightarrow> xml list \<Rightarrow> xml" where
  "set_children e cs = Elem (tag e) (attrib e) (etext e) cs (tail e)"

text \<open>
  \<open>x.addnext(y)\<close>, for \<open>x\<close> at position \<open>k\<close> of its parent's children: \<open>y\<close>
  becomes the next sibling of \<open>x\<close>, after the tail of \<open>x\<close>.
\<close>

definition insert_after :: "nat \<Rightarrow> xml \<Rightarrow> xml list \<Rightarrow> xml list" where
  "insert_after k y cs = take (Suc k) cs @ [y] @ drop (Suc k) cs"

section \<open>\<open>create_ruby_element\<close>\<close>

text \<open>
  Lines 37-71. The two assignments to \<open>.text\<close> (lines 57 and 66) are the places
  where the builder can raise: the reading is stored first, the word second.
\<close>

definition create_ruby_element :: "ustring \<Rightarrow> ustring \<Rightarrow> error + xml" where
  "create_ruby_element text0 ruby_text =
    (let ruby0 = OxmlElement ''w:ruby'';
         rubyPr0 = OxmlElement ''w:rubyPr'';
         rubyAlign = set_attr (OxmlElement ''w:rubyAlign'') ''w:val'' ''distributeSpace'';
         rubyPr = append rubyPr0 rubyAlign;
         ruby1 = append ruby0 rubyPr;
         rt0 = OxmlElement ''w:rt'';
         r_rt0 = OxmlElement ''w:r''
     in case set_text (OxmlElement ''w:t'') ruby_text of
          Inl e \<Rightarrow> Inl e
        | Inr t_rt \<Rightarrow>
            (let r_rt = append r_rt0 t_rt;
                 rt = append rt0 r_rt;
                 ruby2 = append ruby1 rt;
                 rubyBase0 = OxmlElement ''w:rubyBase'';
                 r_base0 = OxmlElement ''w:r''
             in case set_text (OxmlElement ''w:t'') text0 of
                  Inl e \<Rightarrow> Inl e
                | Inr t_base \<Rightarrow>
                    (let r_base = append r_base0 t_base;
                         rubyBase = append rubyBase0 r_base;
                         ruby3 = append ruby2 rubyBase
                     in Inr ruby3)))"

section \<open>The python-docx operations the program calls\<close>

text \<open>
  \<open>paragraph.runs\<close> is computed afresh at every access, from the \<open>w:r\<close> elements
  that are direct children of the paragraph element. The runs nested in an annotation
  (\<open>w:rt\<close>, \<open>w:rubyBase\<close>) are not direct children and are not listed.
\<close>

definition is_run :: "xml \<Rightarrow> bool" where
  "is_run e = (tag e = ''w:r'')"

definition runs :: "xml \<Rightarrow> xml list" where
  "runs p = filter is_run (children p)"

text \<open>Position, among all the children, of the \<open>i\<close>-th run.\<close>

fun run_index :: "xml list \<Rightarrow> nat \<Rightarrow> nat" where
  "run_index [] i = 0"
| "run_index (c # cs) i =
     (if is_run c then (case i of 0 \<Rightarrow> 0 | Suc j \<Rightarrow> Suc (run_index cs j))
      else Suc (run_index cs i))"

text \<open>
  \<open>run.text\<close>, read (python-docx 1.x): the text equivalents of the run's content
  children, concatenated. A \<open>w:br\<close> is a line feed when its type is absent or
  \<open>textWrapping\<close> and nothing for a page or column break. Tails are not read.
\<close>

definition child_text :: "xml \<Rightarrow> ustring" where
  "child_text e =
     (if tag e = ''w:br'' then
        (case map_of (attrib e) ''w:type'' of
           None \<Rightarrow> [10]
         | Some ty \<Rightarrow> if ty = ''textWrapping'' then [10] else [])
      else if tag e = ''w:cr'' then [10]
      else if tag e = ''w:noBreakHyphen'' then [45]
      else if tag e = ''w:ptab'' then [9]
      else if tag e = ''w:t'' then etext e
      else if tag e = ''w:tab'' then [9]
      else [])"

definition run_text :: "xml \<Rightarrow> ustring" where
  "run_text r = concat (map child_text (children r))"

text \<open>
  \<open>run.text = s\<close>, written: \<open>clear_content\<close> removes every child but \<open>w:rPr\<close>,
  then the text is appended character by character: a tab becomes \<open>w:tab\<close>, a line
  feed or carriage return becomes \<open>w:br\<close>, and each maximal stretch of other
  characters becomes one \<open>w:t\<close>, marked \<open>xml:space="preserve"\<close> when
  \<open>str.strip\<close> would shorten it. The text of each \<open>w:t\<close> is stored by lxml, so
  the setter raises where \<open>set_text\<close> does.
\<close>

definition py_isspace :: "nat \<Rightarrow> bool" where
  "py_isspace c = ((9 \<le> c \<and> c \<le> 13) \<or> (28 \<le> c \<and> c \<le> 32) \<or> c = 133 \<or> c = 160
     \<or> c = 5760 \<or> (8192 \<le> c \<and> c \<le> 8202) \<or> c = 8232 \<or> c = 8233 \<or> c = 8239
     \<or> c = 8287 \<or> c = 12288)"

definition strip :: "ustring \<Rightarrow> ustring" where
  "strip s = rev (dropWhile py_isspace (rev (dropWhile py_isspace s)))"

definition add_t :: "ustring \<Rightarrow> error + xml" where
  "add_t s =
     (case set_text (OxmlElement ''w:t'') s of
        Inl e \<Rightarrow> Inl e
      | Inr t \<Rightarrow> Inr (if length (strip s) < length s
                       then set_attr t ''xml:space'' ''preserve'' else t))"

definition flush :: "ustring \<Rightarrow> error + xml list" where
  "flush bfr = (if bfr = [] then Inr []
                else (case add_t bfr of Inl e \<Rightarrow> Inl e | Inr t \<Rightarrow> Inr [t]))"

fun append_to_run_from_text :: "ustring \<Rightarrow> ustring \<Rightarrow> error + xml list" where
  "append_to_run_from_text bfr [] = flush bfr"
| "append_to_run_from_text bfr (c # cs) =
     (if c = 9 then
        (case flush bfr of
           Inl e \<Rightarrow> Inl e
         | Inr ts \<Rightarrow>
             (case append_to_run_from_text [] cs of
                Inl e \<Rightarrow> Inl e
              | Inr rest \<Rightarrow> Inr (ts @ [OxmlElement ''w:tab''] @ rest)))
      else if c = 13 \<or> c = 10 then
        (case flush bfr of
           Inl e \<Rightarrow> Inl e
         | Inr ts \<Rightarrow>
             (case append_to_run_from_text [] cs of
                Inl e \<Rightarrow> Inl e
              | Inr rest \<Rightarrow> Inr (ts @ [OxmlElement ''w:br''] @ rest)))
      else append_to_run_from_text (bfr @ [c]) cs)"

definition clear_content :: "xml \<Rightarrow> xml" where
  "clear_content r = set_children r (filter (\<lambda>e. tag e = ''w:rPr'') (children r))"

definition run_set_text :: "xml \<Rightarrow> ustring \<Rightarrow> error + xml" where
  "run_set_text r s =
     (let r0 = clear_content r
      in case append_to_run_from_text [] s of
           Inl e \<Rightarrow> Inl e
         | Inr cs \<Rightarrow> Inr (set_children r0 (children r0 @ cs)))"

text \<open>\<open>run_xml.rPr\<close>: the first \<open>w:rPr\<close> child, or \<open>None\<close>.\<close>

definition rPr :: "xml \<Rightarrow> xml option" where
  "rPr r = find (\<lambda>e. tag e = ''w:rPr'') (children r)"

section \<open>\<open>apply_ruby_to_document\<close>\<close>

text \<open>
  \<open>s.find(w)\<close>: the least index at which \<open>w\<close> occurs in \<open>s\<close>; \<open>None\<close> for -1.
  \<open>w in s\<close> is \<open>s.find(w) != -1\<close>.
\<close>

fun str_find :: "'a list \<Rightarrow> 'a list \<Rightarrow> nat option" where
  "str_find [] w = (if w = [] then Some 0 else None)"
| "str_find (c # cs) w =
     (if prefix w (c # cs) then Some 0 else map_option Suc (str_find cs w))"

definition contains :: "'a list \<Rightarrow> 'a list \<Rightarrow> bool" where
  "contains s w = (str_find s w \<noteq> None)"

text \<open>
  The page-break test of lines 131-132 looks for the substrings
  \<open>w:lastRenderedPageBreak\<close> and \<open>w:type="page"\<close> in the serialised run. The
  serialiser prints, for the run and every element below it, the tag, each attribute
  as \<open>name="value"\<close>, the text and the tail. The first substring has no character
  that the serialiser escapes or puts between these parts, so it occurs in the output
  exactly when it occurs in a tag, in the name or the value of an attribute, in a text
  or in a tail. The second has a quotation mark, which is escaped in an attribute value
  and not in a text or tail: it occurs exactly when it occurs in a text or a tail, or
  when an attribute whose name ends with \<open>w:type\<close> has the value \<open>page\<close>. (The
  namespace declarations that the serialiser adds to the run are those of the document
  and are taken to contain neither substring.)
\<close>

definition marker_lastRendered :: string where
  "marker_lastRendered = ''w:lastRenderedPageBreak''"

definition marker_type_page :: ustring where
  "marker_type_page = [119, 58, 116, 121, 112, 101, 61, 34, 112, 97, 103, 101, 34]"

definition text_has_marker :: "ustring \<Rightarrow> bool" where
  "text_has_marker s =
     (contains s (map of_char marker_lastRendered) \<or> contains s marker_type_page)"

definition attr_has_marker :: "string \<times> string \<Rightarrow> bool" where
  "attr_has_marker a =
     (contains (fst a) marker_lastRendered \<or> contains (snd a) marker_lastRendered
      \<or> (suffix ''w:type'' (fst a) \<and> snd a = ''page''))"

fun serialised_has_marker :: "xml \<Rightarrow> bool" where
  "serialised_has_marker (Elem t as s cs tl0) =
     (contains t marker_lastRendered \<or> list_ex attr_has_marker as \<or> text_has_marker s
      \<or> list_ex serialised_has_marker cs \<or> text_has_marker tl0)"

text \<open>The state the loops share: the paragraph being rewritten and the two dicts.\<close>

record state =
  para :: xml
  global_applied :: tracker
  items_applied_on_page :: tracker

text \<open>
  Lines 143-156: the first setting, in the order of \<open>sorted_settings\<close>, that the mode
  does not skip and whose word occurs in the text, with the index of its first occurrence.
\<close>

fun find_match :: "string \<Rightarrow> tracker \<Rightarrow> tracker \<Rightarrow> ustring \<Rightarrow> setting list
    \<Rightarrow> (setting \<times> nat) option" where
  "find_match mode g p original_text [] = None"
| "find_match mode g p original_text (s # rest) =
     (if mode = ''once'' \<and> applied g (word s) then find_match mode g p original_text rest
      else if mode = ''per_page'' \<and> applied p (word s) then find_match mode g p original_text rest
      else (case str_find original_text (word s) of
              Some idx \<Rightarrow> Some (s, idx)
            | None \<Rightarrow> find_match mode g p original_text rest))"

text \<open>
  Lines 186-198: the run that receives the text after the match. Line 197 stores the
  text and can raise.
\<close>

definition make_after_run :: "xml \<Rightarrow> ustring \<Rightarrow> error + xml" where
  "make_after_run run_xml text_after =
     (let new_run0 = OxmlElement ''w:r'';
          new_run1 = (case rPr run_xml of Some pr \<Rightarrow> append new_run0 pr | None \<Rightarrow> new_run0);
          t_u0 = OxmlElement ''w:t'';
          t_u1 = (if length text_after > 0 \<and> (hd text_after = 32 \<or> last text_after = 32)
                  then set_attr t_u0 ''xml:space'' ''preserve'' else t_u0)
      in case set_text t_u1 text_after of
           Inl e \<Rightarrow> Inl e
         | Inr t_u \<Rightarrow> Inr (append new_run1 t_u))"

text \<open>
  Lines 156-200, for a match of \<open>s\<close> at \<open>idx\<close> in the \<open>i\<close>-th run: the dicts are
  updated, the run keeps the text before the match, the annotation is inserted after
  it and, when text remains, a new run after the annotation. An exception raised on
  the way leaves the function at once (nothing catches it, the document is not saved),
  so the result is then the error alone.
\<close>

definition apply_match :: "string \<Rightarrow> nat \<Rightarrow> setting \<Rightarrow> nat \<Rightarrow> ustring \<Rightarrow> state
    \<Rightarrow> error + state" where
  "apply_match mode i s idx original_text st =
     (let g = (if mode = ''once'' then (global_applied st)(word s \<mapsto> True) else global_applied st);
          p = (if mode = ''per_page'' then (items_applied_on_page st)(word s \<mapsto> True)
               else items_applied_on_page st);
          text_before = take idx original_text;
          text_after = drop (idx + length (word s)) original_text;
          cs = children (para st);
          k = run_index cs i
      in case run_set_text (cs ! k) text_before of
           Inl e \<Rightarrow> Inl e
         | Inr run_xml \<Rightarrow>
             (case create_ruby_element (word s) (ruby s) of
                Inl e \<Rightarrow> Inl e
              | Inr ruby_elem \<Rightarrow>
                  (let cs1 = insert_after k ruby_elem (cs[k := run_xml])
                   in if text_after \<noteq> [] then
                        (case make_after_run run_xml text_after of
                           Inl e \<Rightarrow> Inl e
                         | Inr new_run \<Rightarrow>
                             Inr \<lparr>para = set_children (para st) (insert_after (Suc k) new_run cs1),
                                  global_applied = g, items_applied_on_page = p\<rparr>)
                      else Inr \<lparr>para = set_children (para st) cs1,
                                global_applied = g, items_applied_on_page = p\<rparr>)))"

text \<open>
  One pass through the body of the \<open>while\<close> loop (lines 126-236) at index \<open>i\<close>,
  which is below \<open>len(paragraph.runs)\<close>: the next index and the next state, or the
  error raised.
\<close>

definition loop_body :: "string \<Rightarrow> setting list \<Rightarrow> nat \<Rightarrow> state \<Rightarrow> error + nat \<times> state" where
  "loop_body mode sorted_settings i st =
     (let run = runs (para st) ! i;
          st1 = (if serialised_has_marker run
                 then st\<lparr>items_applied_on_page := fresh_tracker sorted_settings\<rparr> else st);
          original_text = run_text run
      in if original_text = [] then Inr (i + 1, st1)
         else (case find_match mode (global_applied st1) (items_applied_on_page st1)
                      original_text sorted_settings of
                 None \<Rightarrow> Inr (i + 1, st1)
               | Some (s, idx) \<Rightarrow>
                   (case apply_match mode i s idx original_text st1 of
                      Inl e \<Rightarrow> Inl e
                    | Inr st2 \<Rightarrow> Inr (0, st2))))"

text \<open>
  The \<open>while\<close> loop. Nothing bounds its number of passes, so it is a partial function:
  \<open>None\<close> is the loop that never ends, \<open>Some (Inl e)\<close> the loop left by an
  exception, \<open>Some (Inr st)\<close> the loop that ends with the state \<open>st\<close>.
\<close>

partial_function (option) while_runs :: "string \<Rightarrow> setting list \<Rightarrow> nat \<Rightarrow> state
    \<Rightarrow> (error + state) option" where
  "while_runs mode sorted_settings i st =
     (if i < length (runs (para st))
      then (case loop_body mode sorted_settings i st of
              Inl e \<Rightarrow> Some (Inl e)
            | Inr (i', st') \<Rightarrow> while_runs mode sorted_settings i' st')
      else Some (Inr st))"

text \<open>The \<open>for\<close> loop over \<open>doc.paragraphs\<close>: the rewritten paragraphs and the final dicts.\<close>

fun for_paragraphs :: "string \<Rightarrow> setting list \<Rightarrow> xml list \<Rightarrow> tracker \<Rightarrow> tracker
    \<Rightarrow> (error + xml list \<times> tracker \<times> tracker) option" where
  "for_paragraphs mode sorted_settings [] g p = Some (Inr ([], g, p))"
| "for_paragraphs mode sorted_settings (pg # rest) g p =
     (case while_runs mode sorted_settings 0
             \<lparr>para = pg, global_applied = g, items_applied_on_page = p\<rparr> of
        None \<Rightarrow> None
      | Some (Inl e) \<Rightarrow> Some (Inl e)
      | Some (Inr st) \<Rightarrow>
          (case for_paragraphs mode sorted_settings rest (global_applied st)
                  (items_applied_on_page st) of
             None \<Rightarrow> None
           | Some (Inl e) \<Rightarrow> Some (Inl e)
           | Some (Inr (ps, g', p')) \<Rightarrow> Some (Inr (para st # ps, g', p'))))"

text \<open>
  \<open>sorted(ruby_settings, key=lambda x: len(x['word']), reverse=True)\<close>: Python's sort is
  stable, also with \<open>reverse=True\<close>, so settings of equal word length keep their order.
\<close>

definition sorted_settings_of :: "setting list \<Rightarrow> setting list" where
  "sorted_settings_of ruby_settings = sort_key (\<lambda>x. - int (length (word x))) ruby_settings"

text \<open>
  The whole function, from the paragraphs of the loaded document to the paragraphs of
  the saved one. Loading and saving are the document library's and are not modelled.
\<close>

definition apply_ruby_to_document :: "xml list \<Rightarrow> setting list \<Rightarrow> string
    \<Rightarrow> (error + xml list) option" where
  "apply_ruby_to_document doc ruby_settings mode =
     (let global_applied0 = fresh_tracker ruby_settings;
          sorted_settings = sorted_settings_of ruby_settings;
          items_applied_on_page0 = fresh_tracker sorted_settings
      in case for_paragraphs mode sorted_settings doc global_applied0 items_applied_on_page0 of
           None \<Rightarrow> None
         | Some (Inl e) \<Rightarrow> Some (Inl e)
         | Some (Inr (ps, g, p)) \<Rightarrow> Some (Inr ps))"

section \<open>Notions for stating the properties\<close>

text \<open>Written to a run and read back, a carriage return has become a line feed.\<close>

definition cr_to_lf :: "nat \<Rightarrow> nat" where
  "cr_to_lf c = (if c = 13 then 10 else c)"

text \<open>
  What the operations build when nothing raises: the annotation of a word with a
  reading, the \<open>w:t\<close> of the text setter, the content that the setter rebuilds from a
  text, the run with its content replaced, the run for the text after a match, and the
  state after a split.
\<close>

definition ruby_node :: "ustring \<Rightarrow> ustring \<Rightarrow> xml" where
  "ruby_node w rd =
     Elem ''w:ruby'' [] []
       [Elem ''w:rubyPr'' [] []
          [Elem ''w:rubyAlign'' [(''w:val'', ''distributeSpace'')] [] [] []] [],
        Elem ''w:rt'' [] [] [Elem ''w:r'' [] [] [Elem ''w:t'' [] rd [] []] []] [],
        Elem ''w:rubyBase'' [] [] [Elem ''w:r'' [] [] [Elem ''w:t'' [] w [] []] []] []] []"

definition t_element :: "ustring \<Rightarrow> xml" where
  "t_element s =
     Elem ''w:t'' (if length (strip s) < length s then [(''xml:space'', ''preserve'')] else [])
       s [] []"

fun text_content :: "ustring \<Rightarrow> ustring \<Rightarrow> xml list" where
  "text_content bfr [] = (if bfr = [] then [] else [t_element bfr])"
| "text_content bfr (c # cs) =
     (if c = 9 then (if bfr = [] then [] else [t_element bfr])
                     @ [OxmlElement ''w:tab''] @ text_content [] cs
      else if c = 13 \<or> c = 10 then (if bfr = [] then [] else [t_element bfr])
                     @ [OxmlElement ''w:br''] @ text_content [] cs
      else text_content (bfr @ [c]) cs)"

definition with_text :: "xml \<Rightarrow> ustring \<Rightarrow> xml" where
  "with_text r s =
     set_children r (filter (\<lambda>e. tag e = ''w:rPr'') (children r) @ text_content [] s)"

definition after_run :: "xml \<Rightarrow> ustring \<Rightarrow> xml" where
  "after_run r s =
     Elem ''w:r'' [] []
       ((case rPr r of None \<Rightarrow> [] | Some pr \<Rightarrow> [pr])
        @ [Elem ''w:t'' (if s \<noteq> [] \<and> (hd s = 32 \<or> last s = 32)
                         then [(''xml:space'', ''preserve'')] else []) s [] []]) []"

text \<open>
  The elements that stand in the place of the run \<open>r\<close> after lines 169-200: the
  run with the text before the match, the annotation, and the run with the text after
  the match when there is any.
\<close>

definition spliced :: "xml \<Rightarrow> setting \<Rightarrow> nat \<Rightarrow> ustring \<Rightarrow> xml list" where
  "spliced r s idx t =
     [with_text r (take idx t), ruby_node (word s) (ruby s)]
     @ (if drop (idx + length (word s)) t = [] then []
        else [after_run (with_text r (take idx t)) (drop (idx + length (word s)) t)])"

definition split_at :: "string \<Rightarrow> nat \<Rightarrow> setting \<Rightarrow> nat \<Rightarrow> ustring \<Rightarrow> state \<Rightarrow> state" where
  "split_at mode i s idx t st =
     (let cs = children (para st);
          k = run_index cs i;
          run_xml = with_text (cs ! k) (take idx t);
          cs1 = insert_after k (ruby_node (word s) (ruby s)) (cs[k := run_xml]);
          cs2 = (if drop (idx + length (word s)) t \<noteq> []
                 then insert_after (Suc k) (after_run run_xml (drop (idx + length (word s)) t)) cs1
                 else cs1)
      in \<lparr>para = set_children (para st) cs2,
          global_applied = (if mode = ''once'' then (global_applied st)(word s \<mapsto> True)
                            else global_applied st),
          items_applied_on_page = (if mode = ''per_page''
                                   then (items_applied_on_page st)(word s \<mapsto> True)
                                   else items_applied_on_page st)\<rparr>)"

text \<open>The strings a split stores: it raises unless all of them are XML-compatible.\<close>

definition split_compatible :: "setting \<Rightarrow> nat \<Rightarrow> ustring \<Rightarrow> bool" where
  "split_compatible s idx t =
     (xml_compatible (take idx t) \<and> xml_compatible (ruby s) \<and> xml_compatible (word s)
      \<and> xml_compatible (drop (idx + length (word s)) t))"

text \<open>The text of a paragraph: the texts of its runs, in order.\<close>

definition plain_text :: "xml \<Rightarrow> ustring" where
  "plain_text p = concat (map run_text (runs p))"

text \<open>
  The rules whose words and readings lxml accepts, and the documents whose run texts
  it accepts (every document that lxml has parsed is one).
\<close>

definition rules_compatible :: "setting list \<Rightarrow> bool" where
  "rules_compatible ss = list_all (\<lambda>s. xml_compatible (word s) \<and> xml_compatible (ruby s)) ss"

definition doc_compatible :: "xml list \<Rightarrow> bool" where
  "doc_compatible doc = list_all (\<lambda>pg. xml_compatible (plain_text pg)) doc"

text \<open>The base text of an annotation: the text of the runs under its \<open>w:rubyBase\<close>.\<close>

definition annotation_word :: "xml \<Rightarrow> ustring" where
  "annotation_word c =
     concat (map run_text (filter is_run
       (concat (map children (filter (\<lambda>e. tag e = ''w:rubyBase'') (children c))))))"

text \<open>
  The text of a paragraph with every annotation put back as its base word: a run
  contributes its text, an annotation its word, any other child nothing.
\<close>

definition restored_item :: "xml \<Rightarrow> ustring" where
  "restored_item c = (if is_run c then run_text c
                      else if tag c = ''w:ruby'' then annotation_word c else [])"

definition restored_text :: "xml \<Rightarrow> ustring" where
  "restored_text p = concat (map restored_item (children p))"

text \<open>The number of annotations of the word \<open>w\<close> among the children of a paragraph.\<close>

definition count_annotations :: "ustring \<Rightarrow> xml \<Rightarrow> nat" where
  "count_annotations w p =
     length (filter (\<lambda>c. tag c = ''w:ruby'' \<and> annotation_word c = w) (children p))"

text \<open>The two \<open>continue\<close> tests of lines 148-151.\<close>

definition skipped :: "string \<Rightarrow> tracker \<Rightarrow> tracker \<Rightarrow> ustring \<Rightarrow> bool" where
  "skipped mode g p w = ((mode = ''once'' \<and> applied g w) \<or> (mode = ''per_page'' \<and> applied p w))"

text \<open>Shorthand for the documents of the examples, and the rule of the spec's examples.\<close>

definition w_t :: "ustring \<Rightarrow> xml" where "w_t s = Elem ''w:t'' [] s [] []"

definition w_r :: "xml list \<Rightarrow> xml" where "w_r cs = Elem ''w:r'' [] [] cs []"

definition w_p :: "xml list \<Rightarrow> xml" where "w_p cs = Elem ''w:p'' [] [] cs []"

definition kagi :: setting where "kagi = \<lparr>word = [0x9375], ruby = [0x304B, 0x304E]\<rparr>"



text \<open>
  An element that the text setter or the after-run code builds from text alone: a
  \<open>w:t\<close>, \<open>w:tab\<close> or \<open>w:br\<close> without children and without a
  \<open>w:type\<close> attribute (so a \<open>w:br\<close> among them is a line break, never a page break).
\<close>

definition text_element :: "xml \<Rightarrow> bool" where
  "text_element c = ((tag c = ''w:t'' \<or> tag c = ''w:tab'' \<or> tag c = ''w:br'')
     \<and> children c = [] \<and> map_of (attrib c) ''w:type'' = None)"

text \<open>The two rules of the spec's longest-match example.\<close>

definition unmei :: setting where "unmei = \<lparr>word = [0x904B, 0x547D], ruby = [0x3055, 0x3060, 0x3081]\<rparr>"

definition inochi :: setting where "inochi = \<lparr>word = [0x547D], ruby = [0x3044, 0x306E, 0x3061]\<rparr>"





section \<open>Facts about the operations\<close>

lemma tag_simps [simp]:
  "tag (OxmlElement t) = t"
  "tag (append p c) = tag p"
  "tag (set_attr e k v) = tag e"
  "tag (set_children e cs) = tag e"
  by (simp_all add: OxmlElement_def append_def set_attr_def set_children_def)

lemma children_simps [simp]:
  "children (OxmlElement t) = []"
  "children (append p c) = children p @ [c]"
  "children (set_attr e k v) = children e"
  "children (set_children e cs) = cs"
  by (simp_all add: OxmlElement_def append_def set_attr_def set_children_def)

lemma etext_simps [simp]:
  "etext (OxmlElement t) = []"
  "etext (append p c) = etext p"
  "etext (set_attr e k v) = etext e"
  "etext (set_children e cs) = etext e"
  by (simp_all add: OxmlElement_def append_def set_attr_def set_children_def)

lemma attrib_simps [simp]:
  "attrib (OxmlElement t) = []"
  "attrib (append p c) = attrib p"
  "attrib (set_attr e k v) = AList.update k v (attrib e)"
  "attrib (set_children e cs) = attrib e"
  by (simp_all add: OxmlElement_def append_def set_attr_def set_children_def)

lemma xml_compatible_simps [simp]:
  "xml_compatible []"
  "xml_compatible (c # cs) = (xml_char c \<and> xml_compatible cs)"
  "xml_compatible (a @ b) = (xml_compatible a \<and> xml_compatible b)"
  by (simp_all add: xml_compatible_def)

lemma xml_compatible_take: "xml_compatible t \<Longrightarrow> xml_compatible (take n t)"
  by (auto simp: xml_compatible_def list_all_iff dest: in_set_takeD)

lemma xml_compatible_drop: "xml_compatible t \<Longrightarrow> xml_compatible (drop n t)"
  by (auto simp: xml_compatible_def list_all_iff dest: in_set_dropD)

lemma xml_char_cr_to_lf: "xml_char c \<Longrightarrow> xml_char (cr_to_lf c)"
  by (auto simp: cr_to_lf_def xml_char_def)

lemma xml_compatible_cr_to_lf: "xml_compatible t \<Longrightarrow> xml_compatible (map cr_to_lf t)"
  by (induction t) (simp_all add: xml_char_cr_to_lf)

lemma create_ruby_element_eq:
  "create_ruby_element w rd =
     (if xml_compatible rd \<and> xml_compatible w then Inr (ruby_node w rd) else Inl ValueError)"
  by (simp add: create_ruby_element_def ruby_node_def set_text_def OxmlElement_def append_def
      set_attr_def)

lemma add_t_eq: "add_t s = (if xml_compatible s then Inr (t_element s) else Inl ValueError)"
  by (simp add: add_t_def t_element_def set_text_def OxmlElement_def set_attr_def)

lemma flush_eq:
  "flush b = (if xml_compatible b then Inr (if b = [] then [] else [t_element b])
              else Inl ValueError)"
  by (simp add: flush_def add_t_eq)

lemma append_to_run_from_text_eq:
  "append_to_run_from_text bfr s =
     (if xml_compatible (bfr @ s) then Inr (text_content bfr s) else Inl ValueError)"
proof (induction s arbitrary: bfr)
  case Nil
  show ?case by (simp add: flush_eq)
next
  case (Cons c cs)
  have "xml_char 9" "xml_char 10" "xml_char 13" by (simp_all add: xml_char_def)
  with Cons show ?case by (auto simp: flush_eq)
qed

lemma run_set_text_eq:
  "run_set_text r s = (if xml_compatible s then Inr (with_text r s) else Inl ValueError)"
  by (simp add: run_set_text_def with_text_def clear_content_def append_to_run_from_text_eq
      set_children_def)

lemma make_after_run_eq:
  "make_after_run r s = (if xml_compatible s then Inr (after_run r s) else Inl ValueError)"
  by (simp add: make_after_run_def after_run_def Let_def OxmlElement_def append_def set_attr_def
      set_text_def split: option.split)

lemma apply_match_eq:
  "apply_match mode i s idx t st =
     (if split_compatible s idx t then Inr (split_at mode i s idx t st) else Inl ValueError)"
  by (simp add: apply_match_def split_at_def split_compatible_def Let_def run_set_text_eq
      create_ruby_element_eq make_after_run_eq)

lemma tag_ruby_node [simp]: "tag (ruby_node w rd) = ''w:ruby''"
  by (simp add: ruby_node_def)

lemma not_is_run_ruby_node [simp]: "\<not> is_run (ruby_node w rd)"
  by (simp add: is_run_def)

lemma tag_with_text [simp]: "tag (with_text r s) = tag r"
  by (simp add: with_text_def)

lemma tag_after_run [simp]: "tag (after_run r s) = ''w:r''"
  by (simp add: after_run_def)

lemma t_element_simps [simp]:
  "tag (t_element b) = ''w:t''" "etext (t_element b) = b" "children (t_element b) = []"
  by (simp_all add: t_element_def)

lemma child_text_t_element [simp]: "child_text (t_element b) = b"
  by (simp add: child_text_def)

lemma text_of_content:
  "concat (map child_text (text_content bfr s)) = bfr @ map cr_to_lf s"
  by (induction s arbitrary: bfr) (simp_all add: child_text_def cr_to_lf_def)

lemma child_text_rPr: "tag e = ''w:rPr'' \<Longrightarrow> child_text e = []"
  by (simp add: child_text_def)

lemma text_of_rPr_children [simp]:
  "concat (map child_text (filter (\<lambda>e. tag e = ''w:rPr'') cs)) = []"
proof (induction cs)
  case Nil
  show ?case by simp
next
  case (Cons c cs)
  then show ?case by (cases "tag c = ''w:rPr''") (simp_all add: child_text_rPr)
qed

lemma run_text_with_text [simp]: "run_text (with_text r s) = map cr_to_lf s"
  by (simp add: run_text_def with_text_def text_of_content)

lemma rPr_tag: "rPr r = Some pr \<Longrightarrow> tag pr = ''w:rPr''"
  by (auto simp: rPr_def find_Some_iff)

lemma run_text_after_run [simp]: "run_text (after_run r s) = s"
proof (cases "rPr r")
  case None
  then show ?thesis by (simp add: run_text_def after_run_def child_text_def)
next
  case (Some pr)
  then have "child_text pr = []" by (simp add: rPr_tag child_text_rPr)
  with Some show ?thesis by (simp add: run_text_def after_run_def) (simp add: child_text_def)
qed

lemma run_index_split:
  "i < length (filter is_run cs) \<Longrightarrow>
   \<exists>pre post. cs = pre @ (filter is_run cs ! i) # post \<and> length pre = run_index cs i
     \<and> filter is_run pre = take i (filter is_run cs)
     \<and> filter is_run post = drop (Suc i) (filter is_run cs)"
proof (induction cs arbitrary: i)
  case Nil
  then show ?case by simp
next
  case (Cons c cs)
  show ?case
  proof (cases "is_run c")
    case False
    with Cons.prems have "i < length (filter is_run cs)" by simp
    from Cons.IH [OF this] obtain pre post where
      "cs = pre @ (filter is_run cs ! i) # post" "length pre = run_index cs i"
      "filter is_run pre = take i (filter is_run cs)"
      "filter is_run post = drop (Suc i) (filter is_run cs)" by blast
    with False show ?thesis
      by (intro exI [of _ "c # pre"] exI [of _ post]) simp
  next
    case True
    show ?thesis
    proof (cases i)
      case 0
      with True show ?thesis
        by (intro exI [of _ "[]"] exI [of _ cs]) simp
    next
      case (Suc j)
      with True Cons.prems have "j < length (filter is_run cs)" by simp
      from Cons.IH [OF this] obtain pre post where
        "cs = pre @ (filter is_run cs ! j) # post" "length pre = run_index cs j"
        "filter is_run pre = take j (filter is_run cs)"
        "filter is_run post = drop (Suc j) (filter is_run cs)" by blast
      with True Suc show ?thesis
        by (intro exI [of _ "c # pre"] exI [of _ post]) simp
    qed
  qed
qed

lemma children_split_at:
  assumes "children (para st) = pre @ r # post" and "length pre = run_index (children (para st)) i"
  shows "children (para (split_at mode i s idx t st)) = pre @ spliced r s idx t @ post"
  using assms
  by (simp add: split_at_def Let_def insert_after_def spliced_def nth_append list_update_append)

lemma annotation_word_ruby_node [simp]: "annotation_word (ruby_node w rd) = w"
  by (simp add: annotation_word_def ruby_node_def is_run_def run_text_def child_text_def)

lemma str_find_Some:
  "str_find t w = Some idx \<Longrightarrow> t = take idx t @ w @ drop (idx + length w) t"
proof (induction t arbitrary: idx)
  case Nil
  then show ?case by (simp split: if_splits)
next
  case (Cons c cs)
  show ?case
  proof (cases "prefix w (c # cs)")
    case True
    with Cons.prems have "idx = 0" by simp
    with True show ?thesis by (auto simp: prefix_def)
  next
    case False
    with Cons.prems obtain j where j: "str_find cs w = Some j" "idx = Suc j" by auto
    from Cons.IH [OF j(1)] j(2) show ?thesis by simp
  qed
qed

lemma str_find_None: "str_find t w = None \<Longrightarrow> \<not> prefix w (drop j t)"
proof (induction t arbitrary: j)
  case Nil
  then show ?case by (simp split: if_splits)
next
  case (Cons c cs)
  then show ?case by (cases j) (auto split: if_splits)
qed

lemma str_find_least: "str_find t w = Some idx \<Longrightarrow> j < idx \<Longrightarrow> \<not> prefix w (drop j t)"
proof (induction t arbitrary: idx j)
  case Nil
  then show ?case by (simp split: if_splits)
next
  case (Cons c cs)
  then show ?case by (cases j) (auto split: if_splits)
qed

lemma str_find_bound: "str_find t w = Some idx \<Longrightarrow> idx + length w \<le> length t"
proof (induction t arbitrary: idx)
  case Nil
  then show ?case by (simp split: if_splits)
next
  case (Cons c cs)
  show ?case
  proof (cases "prefix w (c # cs)")
    case True
    with Cons.prems have "idx = 0" by simp
    with True show ?thesis by (auto dest: prefix_length_le)
  next
    case False
    with Cons.prems obtain j where j: "str_find cs w = Some j" "idx = Suc j" by auto
    from Cons.IH [OF j(1)] j(2) show ?thesis by simp
  qed
qed

lemma find_match_Some:
  "find_match mode g p t ss = Some (s, idx) \<Longrightarrow>
   \<exists>pre post. ss = pre @ s # post \<and> \<not> skipped mode g p (word s) \<and> str_find t (word s) = Some idx
     \<and> (\<forall>r\<in>set pre. skipped mode g p (word r) \<or> str_find t (word r) = None)"
proof (induction ss)
  case Nil
  then show ?case by simp
next
  case (Cons a ss)
  show ?case
  proof (cases "skipped mode g p (word a) \<or> str_find t (word a) = None")
    case True
    with Cons.prems have "find_match mode g p t ss = Some (s, idx)"
      by (auto simp: skipped_def split: if_splits)
    from Cons.IH [OF this] obtain pre post where
      "ss = pre @ s # post" "\<not> skipped mode g p (word s)" "str_find t (word s) = Some idx"
      "\<forall>r\<in>set pre. skipped mode g p (word r) \<or> str_find t (word r) = None" by blast
    with True show ?thesis
      by (intro exI [of _ "a # pre"] exI [of _ post]) simp
  next
    case False
    with Cons.prems have "a = s" "str_find t (word a) = Some idx"
      by (auto simp: skipped_def split: if_splits)
    with False show ?thesis
      by (intro exI [of _ "[]"] exI [of _ ss]) simp
  qed
qed

lemma find_match_None:
  "find_match mode g p t ss = None \<Longrightarrow>
   \<forall>r\<in>set ss. skipped mode g p (word r) \<or> str_find t (word r) = None"
  by (induction ss) (auto simp: skipped_def split: if_splits option.splits)

lemma find_match_NoneI:
  "\<forall>r\<in>set ss. skipped mode g p (word r) \<or> str_find t (word r) = None \<Longrightarrow>
   find_match mode g p t ss = None"
  by (induction ss) (auto simp: skipped_def)

lemma find_match_mem:
  "find_match mode g p t ss = Some (s, idx) \<Longrightarrow> s \<in> set ss"
  by (auto dest: find_match_Some)

lemma loop_body_cases:
  obtains (advance) p' where
      "loop_body mode ss i st = Inr (Suc i, st\<lparr>items_applied_on_page := p'\<rparr>)"
      "p' = items_applied_on_page st \<or> p' = fresh_tracker ss"
      "run_text (runs (para st) ! i) = []
       \<or> find_match mode (global_applied st) p' (run_text (runs (para st) ! i)) ss = None"
  | (splice) p' s idx where
      "loop_body mode ss i st =
         Inr (0, split_at mode i s idx (run_text (runs (para st) ! i))
                   (st\<lparr>items_applied_on_page := p'\<rparr>))"
      "p' = items_applied_on_page st \<or> p' = fresh_tracker ss"
      "run_text (runs (para st) ! i) \<noteq> []"
      "find_match mode (global_applied st) p' (run_text (runs (para st) ! i)) ss = Some (s, idx)"
      "split_compatible s idx (run_text (runs (para st) ! i))"
  | (raise) p' s idx where
      "loop_body mode ss i st = Inl ValueError"
      "p' = items_applied_on_page st \<or> p' = fresh_tracker ss"
      "run_text (runs (para st) ! i) \<noteq> []"
      "find_match mode (global_applied st) p' (run_text (runs (para st) ! i)) ss = Some (s, idx)"
      "\<not> split_compatible s idx (run_text (runs (para st) ! i))"
proof -
  define p' where "p' = (if serialised_has_marker (runs (para st) ! i)
                         then fresh_tracker ss else items_applied_on_page st)"
  define t where "t = run_text (runs (para st) ! i)"
  have st1: "(if serialised_has_marker (runs (para st) ! i)
              then st\<lparr>items_applied_on_page := fresh_tracker ss\<rparr> else st)
             = st\<lparr>items_applied_on_page := p'\<rparr>"
    by (simp add: p'_def)
  have p': "p' = items_applied_on_page st \<or> p' = fresh_tracker ss"
    by (simp add: p'_def)
  have lb: "loop_body mode ss i st =
      (if t = [] then Inr (Suc i, st\<lparr>items_applied_on_page := p'\<rparr>)
       else (case find_match mode (global_applied st) p' t ss of
               None \<Rightarrow> Inr (Suc i, st\<lparr>items_applied_on_page := p'\<rparr>)
             | Some (s, idx) \<Rightarrow>
                 (if split_compatible s idx t
                  then Inr (0, split_at mode i s idx t (st\<lparr>items_applied_on_page := p'\<rparr>))
                  else Inl ValueError)))"
    unfolding loop_body_def Let_def st1 t_def by (simp add: apply_match_eq split: option.split)
  show thesis
  proof (cases "t = []")
    case True
    with lb p' advance show ?thesis by (simp add: t_def)
  next
    case False
    show ?thesis
    proof (cases "find_match mode (global_applied st) p' t ss")
      case None
      with lb False p' advance show ?thesis by (simp add: t_def)
    next
      case (Some m)
      obtain s idx where m: "m = (s, idx)" by (cases m)
      show ?thesis
      proof (cases "split_compatible s idx t")
        case True
        with Some m lb False p' splice show ?thesis by (simp add: t_def)
      next
        case c: False
        with Some m lb False p' raise show ?thesis by (simp add: t_def)
      qed
    qed
  qed
qed

lemma while_runs_done:
  "\<not> i < length (runs (para st)) \<Longrightarrow> while_runs mode ss i st = Some (Inr st)"
  by (subst while_runs.simps) simp

lemma while_runs_step:
  "i < length (runs (para st)) \<Longrightarrow> loop_body mode ss i st = Inr (i', st1) \<Longrightarrow>
   while_runs mode ss i st = while_runs mode ss i' st1"
  by (subst while_runs.simps) simp

lemma while_runs_raise:
  "i < length (runs (para st)) \<Longrightarrow> loop_body mode ss i st = Inl e \<Longrightarrow>
   while_runs mode ss i st = Some (Inl e)"
  by (subst while_runs.simps) simp

lemma while_runs_outcome:
  assumes "while_runs mode ss i st = Some r"
    and "I i st"
    and step: "\<And>i st i' st1. I i st \<Longrightarrow> i < length (runs (para st)) \<Longrightarrow>
             loop_body mode ss i st = Inr (i', st1) \<Longrightarrow> I i' st1"
  shows "(\<exists>i' st'. r = Inr st' \<and> I i' st' \<and> \<not> i' < length (runs (para st')))
       \<or> (\<exists>i' st1 e. r = Inl e \<and> I i' st1 \<and> i' < length (runs (para st1))
             \<and> loop_body mode ss i' st1 = Inl e)"
proof -
  let ?Q = "\<lambda>y :: error + state.
       (\<exists>i' st'. y = Inr st' \<and> I i' st' \<and> \<not> i' < length (runs (para st')))
       \<or> (\<exists>i' st1 e. y = Inl e \<and> I i' st1 \<and> i' < length (runs (para st1))
             \<and> loop_body mode ss i' st1 = Inl e)"
  let ?P = "\<lambda>m s i st (y :: error + state). m = mode \<longrightarrow> s = ss \<longrightarrow> I i st \<longrightarrow> ?Q y"
  have "?P mode ss i st r"
  proof (rule while_runs.raw_induct [where P = ?P, OF _ assms(1)])
    fix w m s j t y
    assume IH: "\<And>m s j t y. w m s j t = Some y \<Longrightarrow> ?P m s j t y"
      and eq: "(if j < length (runs (para t))
                then case loop_body m s j t of Inl e \<Rightarrow> Some (Inl e)
                     | Inr (i', st') \<Rightarrow> w m s i' st'
                else Some (Inr t)) = Some y"
    show "?P m s j t y"
    proof (intro impI)
      assume m: "m = mode" and s: "s = ss" and inv: "I j t"
      show "?Q y"
      proof (cases "j < length (runs (para t))")
        case True
        show ?thesis
        proof (cases "loop_body m s j t")
          case (Inl e)
          with eq True have "y = Inl e" by simp
          with Inl True inv m s show ?thesis by blast
        next
          case (Inr b)
          obtain i' st1 where b: "b = (i', st1)" by (cases b)
          with Inr eq True have "w m s i' st1 = Some y" by simp
          from IH [OF this] m s step [OF inv True] Inr b show ?thesis by simp
        qed
      next
        case False
        with eq have "y = Inr t" by simp
        with False inv show ?thesis by blast
      qed
    qed
  qed
  with assms(2) show ?thesis by simp
qed

lemma while_runs_rule:
  assumes "while_runs mode ss i st = Some (Inr st')"
    and "I i st"
    and step: "\<And>i st i' st1. I i st \<Longrightarrow> i < length (runs (para st)) \<Longrightarrow>
             loop_body mode ss i st = Inr (i', st1) \<Longrightarrow> I i' st1"
  shows "\<exists>i'. I i' st' \<and> \<not> i' < length (runs (para st'))"
  using while_runs_outcome [where I = I, OF assms(1) assms(2) step] by auto

lemma while_runs_total:
  assumes wf: "wf R" and inv: "Inv i st"
    and step: "\<And>i st. Inv i st \<Longrightarrow> i < length (runs (para st)) \<Longrightarrow>
       (case loop_body mode ss i st of
          Inl e \<Rightarrow> may_raise
        | Inr (i', st1) \<Rightarrow> ((i', st1), (i, st)) \<in> R \<and> Inv i' st1)"
  shows "\<exists>r. while_runs mode ss i st = Some r \<and> (\<not> may_raise \<longrightarrow> (\<exists>st'. r = Inr st'))"
proof -
  have "Inv (fst x) (snd x) \<Longrightarrow>
        \<exists>r. while_runs mode ss (fst x) (snd x) = Some r \<and> (\<not> may_raise \<longrightarrow> (\<exists>st'. r = Inr st'))"
    for x
    using wf
  proof (induction x rule: wf_induct_rule)
    case (less x)
    obtain i st where x: "x = (i, st)" by (cases x)
    show ?case
    proof (cases "i < length (runs (para st))")
      case False
      then show ?thesis unfolding x by (simp add: while_runs_done)
    next
      case True
      from less.prems x have inv: "Inv i st" by simp
      show ?thesis
      proof (cases "loop_body mode ss i st")
        case (Inl e)
        with step [OF inv True] have may_raise by simp
        with Inl True show ?thesis unfolding x by (simp add: while_runs_raise)
      next
        case (Inr b)
        obtain i' st1 where b: "b = (i', st1)" by (cases b)
        with Inr step [OF inv True] have 1: "((i', st1), x) \<in> R" and 2: "Inv i' st1"
          unfolding x by simp_all
        from less.IH [OF 1] 2 Inr b True show ?thesis
          unfolding x by (simp add: while_runs_step)
      qed
    qed
  qed
  from this [of "(i, st)"] inv show ?thesis by simp
qed

lemma split_at_children:
  assumes "i < length (runs (para st))"
  obtains pre post where
    "children (para st) = pre @ (runs (para st) ! i) # post"
    "children (para (split_at mode i s idx t st))
       = pre @ spliced (runs (para st) ! i) s idx t @ post"
    "filter is_run pre = take i (runs (para st))"
    "filter is_run post = drop (Suc i) (runs (para st))"
proof -
  from assms have "i < length (filter is_run (children (para st)))" by (simp add: runs_def)
  from run_index_split [OF this] obtain pre post where
    pp: "children (para st) = pre @ (runs (para st) ! i) # post"
      "length pre = run_index (children (para st)) i"
      "filter is_run pre = take i (runs (para st))"
      "filter is_run post = drop (Suc i) (runs (para st))"
    unfolding runs_def by blast
  from children_split_at [OF pp(1) pp(2)] pp that show thesis by blast
qed

lemma nth_runs_is_run: "i < length (runs p) \<Longrightarrow> is_run (runs p ! i)"
  unfolding runs_def using nth_mem [of i "filter is_run (children p)"] by simp

lemma is_run_with_text [simp]: "is_run (with_text r s) = is_run r"
  by (simp add: is_run_def)

lemma is_run_after_run [simp]: "is_run (after_run r s)"
  by (simp add: is_run_def)

lemma spliced_run_texts:
  "is_run r \<Longrightarrow> concat (map run_text (filter is_run (spliced r s idx t)))
     = map cr_to_lf (take idx t) @ drop (idx + length (word s)) t"
  by (simp add: spliced_def)

lemma spliced_restored:
  "is_run r \<Longrightarrow> concat (map restored_item (spliced r s idx t))
     = map cr_to_lf (take idx t) @ word s @ drop (idx + length (word s)) t"
  by (simp add: spliced_def restored_item_def)


lemma plain_text_split:
  assumes "children p = pre @ r # post" "is_run r"
  shows "plain_text p = concat (map run_text (filter is_run pre)) @ run_text r
           @ concat (map run_text (filter is_run post))"
  using assms by (simp add: plain_text_def runs_def)

lemma restored_text_split:
  assumes "children p = pre @ r # post" "is_run r"
  shows "restored_text p = concat (map restored_item pre) @ run_text r
           @ concat (map restored_item post)"
  using assms by (simp add: restored_text_def restored_item_def)

lemma para_split_at_tag [simp]: "tag (para (split_at mode i s idx t st)) = tag (para st)"
  by (simp add: split_at_def Let_def)

lemma split_at_plain_text:
  assumes "i < length (runs (para st))" "t = run_text (runs (para st) ! i)"
  obtains a b where
    "plain_text (para st) = a @ t @ b"
    "plain_text (para (split_at mode i s idx t st))
       = a @ map cr_to_lf (take idx t) @ drop (idx + length (word s)) t @ b"
proof -
  let ?r = "runs (para st) ! i"
  from assms(1) have r: "is_run ?r" by (rule nth_runs_is_run)
  from split_at_children [OF assms(1), of mode s idx t] obtain pre post where
    pp: "children (para st) = pre @ ?r # post"
      "children (para (split_at mode i s idx t st)) = pre @ spliced ?r s idx t @ post"
    by blast
  have 1: "plain_text (para st) = concat (map run_text (filter is_run pre)) @ t
             @ concat (map run_text (filter is_run post))"
    using plain_text_split [OF pp(1) r] assms(2) by simp
  have 2: "plain_text (para (split_at mode i s idx t st))
      = concat (map run_text (filter is_run pre))
        @ map cr_to_lf (take idx t) @ drop (idx + length (word s)) t
        @ concat (map run_text (filter is_run post))"
    using pp(2) spliced_run_texts [OF r, of s idx t] by (simp add: plain_text_def runs_def)
  from 1 2 that show thesis by blast
qed

lemma split_at_restored_text:
  assumes "i < length (runs (para st))" "t = run_text (runs (para st) ! i)"
  obtains a b where
    "restored_text (para st) = a @ t @ b"
    "restored_text (para (split_at mode i s idx t st))
       = a @ map cr_to_lf (take idx t) @ word s @ drop (idx + length (word s)) t @ b"
proof -
  let ?r = "runs (para st) ! i"
  from assms(1) have r: "is_run ?r" by (rule nth_runs_is_run)
  from split_at_children [OF assms(1), of mode s idx t] obtain pre post where
    pp: "children (para st) = pre @ ?r # post"
      "children (para (split_at mode i s idx t st)) = pre @ spliced ?r s idx t @ post"
    by blast
  have 1: "restored_text (para st) = concat (map restored_item pre) @ t
             @ concat (map restored_item post)"
    using restored_text_split [OF pp(1) r] assms(2) by simp
  have 2: "restored_text (para (split_at mode i s idx t st))
      = concat (map restored_item pre)
        @ map cr_to_lf (take idx t) @ word s @ drop (idx + length (word s)) t
        @ concat (map restored_item post)"
    using pp(2) spliced_restored [OF r, of s idx t] by (simp add: restored_text_def)
  from 1 2 that show thesis by blast
qed


lemma split_at_trackers [simp]:
  "global_applied (split_at mode i s idx t st)
     = (if mode = ''once'' then (global_applied st)(word s \<mapsto> True) else global_applied st)"
  "items_applied_on_page (split_at mode i s idx t st)
     = (if mode = ''per_page'' then (items_applied_on_page st)(word s \<mapsto> True)
        else items_applied_on_page st)"
  by (simp_all add: split_at_def Let_def)


lemma loop_body_decreases:
  assumes ne: "\<forall>s\<in>set ss. word s \<noteq> []" and i: "i < length (runs (para st))"
    and lb: "loop_body mode ss i st = Inr (i', st1)"
  shows "((i', st1), (i, st))
     \<in> inv_image (less_than <*lex*> less_than)
         (\<lambda>(i, st). (length (plain_text (para st)), length (runs (para st)) - i))"
proof (cases rule: loop_body_cases [of mode ss i st])
  case (advance p')
  with i lb show ?thesis by auto
next
  case (splice p' s idx)
  let ?t = "run_text (runs (para st) ! i)"
  let ?st1 = "st\<lparr>items_applied_on_page := p'\<rparr>"
  from splice(4) have s: "s \<in> set ss" and f: "str_find ?t (word s) = Some idx"
    by (auto dest: find_match_Some)
  from s ne have w: "word s \<noteq> []" by blast
  from str_find_bound [OF f] have b: "idx + length (word s) \<le> length ?t" .
  from i have i1: "i < length (runs (para ?st1))" by simp
  have t1: "?t = run_text (runs (para ?st1) ! i)" by simp
  from split_at_plain_text [OF i1 t1, of mode s idx] obtain a b where
    "plain_text (para ?st1) = a @ ?t @ b"
    "plain_text (para (split_at mode i s idx ?t ?st1))
       = a @ map cr_to_lf (take idx ?t) @ drop (idx + length (word s)) ?t @ b" by blast
  moreover from w obtain c cs where "word s = c # cs" by (cases "word s") auto
  ultimately have "length (plain_text (para (split_at mode i s idx ?t ?st1)))
      < length (plain_text (para st))" using b by simp
  with splice(1) lb show ?thesis by auto
next
  case (raise p' s idx)
  with lb show ?thesis by simp
qed

lemma loop_body_compatible:
  assumes rc: "rules_compatible ss" and tc: "xml_compatible (plain_text (para st))"
    and i: "i < length (runs (para st))"
  shows "\<exists>i' st1. loop_body mode ss i st = Inr (i', st1)
           \<and> xml_compatible (plain_text (para st1))"
proof -
  let ?t = "run_text (runs (para st) ! i)"
  have sc: "split_compatible s idx ?t" if "s \<in> set ss" for s idx
  proof -
    have i1: "i < length (runs (para st))" by (rule i)
    from split_at_plain_text [OF i1 refl, of mode s idx] obtain a b where
      "plain_text (para st) = a @ ?t @ b" by blast
    with tc have "xml_compatible ?t" by simp
    moreover from rc that have "xml_compatible (word s)" "xml_compatible (ruby s)"
      by (auto simp: rules_compatible_def list_all_iff)
    ultimately show ?thesis
      by (simp add: split_compatible_def xml_compatible_take xml_compatible_drop)
  qed
  show ?thesis
  proof (cases rule: loop_body_cases [of mode ss i st])
    case (advance p')
    with tc show ?thesis by simp
  next
    case (splice p' s idx)
    let ?st1 = "st\<lparr>items_applied_on_page := p'\<rparr>"
    from i have i1: "i < length (runs (para ?st1))" by simp
    have t1: "?t = run_text (runs (para ?st1) ! i)" by simp
    from split_at_plain_text [OF i1 t1, of mode s idx] obtain a b where
      pt: "plain_text (para ?st1) = a @ ?t @ b"
        "plain_text (para (split_at mode i s idx ?t ?st1))
           = a @ map cr_to_lf (take idx ?t) @ drop (idx + length (word s)) ?t @ b" by blast
    from pt(1) tc have "xml_compatible a" "xml_compatible ?t" "xml_compatible b" by simp_all
    with pt(2) have "xml_compatible (plain_text (para (split_at mode i s idx ?t ?st1)))"
      by (simp add: xml_compatible_take xml_compatible_drop xml_compatible_cr_to_lf)
    with splice(1) show ?thesis by simp
  next
    case (raise p' s idx)
    from find_match_mem [OF raise(4)] sc raise(5) show ?thesis by blast
  qed
qed

lemma while_runs_terminates:
  assumes ne: "\<forall>s\<in>set ss. word s \<noteq> []"
  shows "\<exists>r. while_runs mode ss i st = Some r"
proof -
  let ?R = "inv_image (less_than <*lex*> less_than)
              (\<lambda>(i, st). (length (plain_text (para st)), length (runs (para st)) - i))"
  have wf: "wf ?R" by (intro wf_inv_image wf_lex_prod wf_less_than)
  have "\<exists>r. while_runs mode ss i st = Some r \<and> (\<not> True \<longrightarrow> (\<exists>st'. r = Inr st'))"
  proof (rule while_runs_total [OF wf, where Inv = "\<lambda>i st. True"])
    fix j and s :: state
    assume j: "j < length (runs (para s))"
    show "case loop_body mode ss j s of Inl e \<Rightarrow> True
          | Inr (i', st1) \<Rightarrow> ((i', st1), (j, s)) \<in> ?R \<and> True"
      using loop_body_decreases [OF ne j, of mode] by (auto split: sum.split)
  qed simp
  then show ?thesis by blast
qed

lemma while_runs_returns:
  assumes ne: "\<forall>s\<in>set ss. word s \<noteq> []" and rc: "rules_compatible ss"
    and tc: "xml_compatible (plain_text (para st))"
  shows "\<exists>st'. while_runs mode ss i st = Some (Inr st')"
proof -
  let ?R = "inv_image (less_than <*lex*> less_than)
              (\<lambda>(i, st). (length (plain_text (para st)), length (runs (para st)) - i))"
  have wf: "wf ?R" by (intro wf_inv_image wf_lex_prod wf_less_than)
  have "\<exists>r. while_runs mode ss i st = Some r \<and> (\<not> False \<longrightarrow> (\<exists>st'. r = Inr st'))"
  proof (rule while_runs_total [OF wf, where Inv = "\<lambda>i st. xml_compatible (plain_text (para st))"])
    show "xml_compatible (plain_text (para st))" by (rule tc)
  next
    fix j and s :: state
    assume c: "xml_compatible (plain_text (para s))" and j: "j < length (runs (para s))"
    from loop_body_compatible [OF rc c j, of mode] obtain i' st1 where
      lb: "loop_body mode ss j s = Inr (i', st1)" and c1: "xml_compatible (plain_text (para st1))"
      by blast
    from loop_body_decreases [OF ne j lb] c1 lb
    show "case loop_body mode ss j s of Inl e \<Rightarrow> False
          | Inr (i', st1) \<Rightarrow> ((i', st1), (j, s)) \<in> ?R \<and> xml_compatible (plain_text (para st1))"
      by simp
  qed
  then show ?thesis by auto
qed

lemma for_paragraphs_total:
  assumes "\<And>pg g p. pg \<in> set doc \<Longrightarrow>
     \<exists>r. while_runs mode ss 0 \<lparr>para = pg, global_applied = g, items_applied_on_page = p\<rparr> = Some r
          \<and> (\<not> may_raise \<longrightarrow> (\<exists>st'. r = Inr st'))"
  shows "\<exists>r. for_paragraphs mode ss doc g p = Some r \<and> (\<not> may_raise \<longrightarrow> (\<exists>res. r = Inr res))"
  using assms
proof (induction doc arbitrary: g p)
  case Nil
  show ?case by simp
next
  case (Cons pg doc)
  from Cons.prems [of pg g p] obtain r where
    r: "while_runs mode ss 0 \<lparr>para = pg, global_applied = g, items_applied_on_page = p\<rparr> = Some r"
      "\<not> may_raise \<longrightarrow> (\<exists>st'. r = Inr st')" by auto
  show ?case
  proof (cases r)
    case (Inl e)
    with r show ?thesis by auto
  next
    case (Inr st)
    from Cons.IH [of "global_applied st" "items_applied_on_page st"] Cons.prems obtain r2 where
      r2: "for_paragraphs mode ss doc (global_applied st) (items_applied_on_page st) = Some r2"
        "\<not> may_raise \<longrightarrow> (\<exists>res. r2 = Inr res)" by auto
    show ?thesis
    proof (cases r2)
      case e: (Inl e)
      with r r2 Inr show ?thesis by auto
    next
      case res: (Inr res)
      with r r2 Inr show ?thesis by (cases res) auto
    qed
  qed
qed

lemma set_sorted_settings_of [simp]: "set (sorted_settings_of ss) = set ss"
  by (simp add: sorted_settings_of_def)

lemma rules_compatible_sorted [simp]:
  "rules_compatible (sorted_settings_of ss) = rules_compatible ss"
  by (simp add: rules_compatible_def list_all_iff)

lemma apply_total:
  assumes "\<exists>r. for_paragraphs mode (sorted_settings_of ss) doc (fresh_tracker ss)
             (fresh_tracker (sorted_settings_of ss)) = Some r
           \<and> (\<not> may_raise \<longrightarrow> (\<exists>res. r = Inr res))"
  shows "\<exists>r. apply_ruby_to_document doc ss mode = Some r
           \<and> (\<not> may_raise \<longrightarrow> (\<exists>doc'. r = Inr doc'))"
proof -
  from assms obtain r where
    r: "for_paragraphs mode (sorted_settings_of ss) doc (fresh_tracker ss)
             (fresh_tracker (sorted_settings_of ss)) = Some r"
      "\<not> may_raise \<longrightarrow> (\<exists>res. r = Inr res)" by blast
  show ?thesis
  proof (cases r)
    case (Inl e)
    with r show ?thesis by (auto simp: apply_ruby_to_document_def)
  next
    case (Inr res)
    with r show ?thesis by (cases res) (auto simp: apply_ruby_to_document_def)
  qed
qed

lemma apply_terminates:
  assumes "\<forall>s\<in>set ss. word s \<noteq> []"
  shows "\<exists>r. apply_ruby_to_document doc ss mode = Some r"
proof -
  from assms have ne: "\<forall>s\<in>set (sorted_settings_of ss). word s \<noteq> []" by simp
  have "\<exists>r. for_paragraphs mode (sorted_settings_of ss) doc (fresh_tracker ss)
             (fresh_tracker (sorted_settings_of ss)) = Some r
           \<and> (\<not> True \<longrightarrow> (\<exists>res. r = Inr res))"
    by (rule for_paragraphs_total) (use while_runs_terminates [OF ne] in simp)
  from apply_total [OF this] show ?thesis by blast
qed

lemma apply_returns:
  assumes "\<forall>s\<in>set ss. word s \<noteq> []" and rc: "rules_compatible ss" and dc: "doc_compatible doc"
  shows "\<exists>doc'. apply_ruby_to_document doc ss mode = Some (Inr doc')"
proof -
  from assms have ne: "\<forall>s\<in>set (sorted_settings_of ss). word s \<noteq> []" by simp
  from rc have rc': "rules_compatible (sorted_settings_of ss)" by simp
  have "\<exists>r. for_paragraphs mode (sorted_settings_of ss) doc (fresh_tracker ss)
             (fresh_tracker (sorted_settings_of ss)) = Some r
           \<and> (\<not> False \<longrightarrow> (\<exists>res. r = Inr res))"
  proof (rule for_paragraphs_total)
    fix pg g p
    assume "pg \<in> set doc"
    with dc have "xml_compatible (plain_text pg)" by (simp add: doc_compatible_def list_all_iff)
    then have "xml_compatible (plain_text (para \<lparr>para = pg, global_applied = g,
        items_applied_on_page = p\<rparr>))" by simp
    from while_runs_returns [OF ne rc' this, of mode 0]
    show "\<exists>r. while_runs mode (sorted_settings_of ss) 0
            \<lparr>para = pg, global_applied = g, items_applied_on_page = p\<rparr> = Some r
          \<and> (\<not> False \<longrightarrow> (\<exists>st'. r = Inr st'))" by auto
  qed
  from apply_total [OF this] show ?thesis by auto
qed

lemma while_runs_empty_word_diverges:
  assumes m: "mode \<noteq> ''once''" "mode \<noteq> ''per_page''"
    and w: "word s = []"
    and rc: "xml_compatible (ruby s)"
    and tc: "xml_compatible (plain_text (para st))"
    and ne: "concat (map run_text (drop i (runs (para st)))) \<noteq> []"
  shows "while_runs mode [s] i st = None"
proof (rule ccontr)
  assume "while_runs mode [s] i st \<noteq> None"
  then obtain r where r: "while_runs mode [s] i st = Some r" by auto
  from w rc have rules: "rules_compatible [s]" by (simp add: rules_compatible_def)
  let ?I = "\<lambda>i st. concat (map run_text (drop i (runs (para st)))) \<noteq> []
              \<and> xml_compatible (plain_text (para st))"
  have "(\<exists>i' st'. r = Inr st' \<and> ?I i' st' \<and> \<not> i' < length (runs (para st')))
       \<or> (\<exists>i' st1 e. r = Inl e \<and> ?I i' st1 \<and> i' < length (runs (para st1))
             \<and> loop_body mode [s] i' st1 = Inl e)"
  proof (rule while_runs_outcome [OF r, where I = ?I])
    show "?I i st" using ne tc by simp
  next
    fix i i' and st st1 :: state
    assume inv: "?I i st" and i: "i < length (runs (para st))"
      and lb: "loop_body mode [s] i st = Inr (i', st1)"
    let ?t = "run_text (runs (para st) ! i)"
    from loop_body_compatible [OF rules _ i, of mode] inv lb
    have c1: "xml_compatible (plain_text (para st1))" by auto
    have "concat (map run_text (drop i' (runs (para st1)))) \<noteq> []"
    proof (cases rule: loop_body_cases [of mode "[s]" i st])
      case (advance p')
      have "?t = []"
      proof (rule ccontr)
        assume "?t \<noteq> []"
        then obtain c cs where "?t = c # cs" by (cases ?t) auto
        then have "find_match mode (global_applied st) p' ?t [s] = Some (s, 0)"
          using m w by simp
        with advance(3) \<open>?t \<noteq> []\<close> show False by simp
      qed
      moreover from i have "drop i (runs (para st)) = runs (para st) ! i # drop (Suc i) (runs (para st))"
        by (simp add: Cons_nth_drop_Suc)
      ultimately show ?thesis using inv advance(1) lb by auto
    next
      case (splice p' s' idx)
      let ?st1 = "st\<lparr>items_applied_on_page := p'\<rparr>"
      from find_match_mem [OF splice(4)] have s': "s' = s" by simp
      from find_match_Some [OF splice(4)] s' have f: "str_find ?t (word s) = Some idx" by blast
      from splice(3) obtain c cs where "?t = c # cs" by (cases ?t) auto
      with f w have idx: "idx = 0" by simp
      from i have i1: "i < length (runs (para ?st1))" by simp
      have t1: "?t = run_text (runs (para ?st1) ! i)" by simp
      from split_at_plain_text [OF i1 t1, of mode s idx] obtain a b where
        "plain_text (para (split_at mode i s idx ?t ?st1))
           = a @ map cr_to_lf (take idx ?t) @ drop (idx + length (word s)) ?t @ b" by blast
      with idx w splice(3) have "plain_text (para (split_at mode i s idx ?t ?st1)) \<noteq> []"
        by simp
      with splice(1) s' lb show ?thesis by (auto simp: plain_text_def)
    next
      case (raise p' s' idx)
      with lb show ?thesis by simp
    qed
    with c1 show "?I i' st1" by simp
  qed
  then show False
  proof
    assume "\<exists>i' st'. r = Inr st' \<and> ?I i' st' \<and> \<not> i' < length (runs (para st'))"
    then show False by auto
  next
    assume "\<exists>i' st1 e. r = Inl e \<and> ?I i' st1 \<and> i' < length (runs (para st1))
             \<and> loop_body mode [s] i' st1 = Inl e"
    then obtain i' st1 e where "xml_compatible (plain_text (para st1))"
      "i' < length (runs (para st1))" "loop_body mode [s] i' st1 = Inl e" by blast
    with loop_body_compatible [OF rules, of st1 i' mode] show False by auto
  qed
qed

lemma cr_to_lf_id: "13 \<notin> set xs \<Longrightarrow> map cr_to_lf xs = xs"
  by (induction xs) (auto simp: cr_to_lf_def)

lemma loop_body_restored:
  assumes i: "i < length (runs (para st))" and cr: "13 \<notin> set (plain_text (para st))"
    and lb: "loop_body mode ss i st = Inr (i', st1)"
  shows "restored_text (para st1) = restored_text (para st)
       \<and> 13 \<notin> set (plain_text (para st1))"
proof (cases rule: loop_body_cases [of mode ss i st])
  case (advance p')
  with cr lb show ?thesis by auto
next
  case (splice p' s idx)
  let ?t = "run_text (runs (para st) ! i)"
  let ?st1 = "st\<lparr>items_applied_on_page := p'\<rparr>"
  from find_match_Some [OF splice(4)] have f: "str_find ?t (word s) = Some idx" by blast
  from str_find_Some [OF f] have t: "?t = take idx ?t @ word s @ drop (idx + length (word s)) ?t" .
  from i have i1: "i < length (runs (para ?st1))" by simp
  have t1: "?t = run_text (runs (para ?st1) ! i)" by simp
  from split_at_plain_text [OF i1 t1, of mode s idx] obtain a b where
    pt: "plain_text (para ?st1) = a @ ?t @ b"
      "plain_text (para (split_at mode i s idx ?t ?st1))
         = a @ map cr_to_lf (take idx ?t) @ drop (idx + length (word s)) ?t @ b" by blast
  from split_at_restored_text [OF i1 t1, of mode s idx] obtain c d where
    rt: "restored_text (para ?st1) = c @ ?t @ d"
      "restored_text (para (split_at mode i s idx ?t ?st1))
         = c @ map cr_to_lf (take idx ?t) @ word s @ drop (idx + length (word s)) ?t @ d" by blast
  from pt(1) cr have nt: "13 \<notin> set ?t" by simp
  then have "13 \<notin> set (take idx ?t)" by (auto dest: in_set_takeD)
  then have id: "map cr_to_lf (take idx ?t) = take idx ?t" by (rule cr_to_lf_id)
  have "restored_text (para (split_at mode i s idx ?t ?st1)) = restored_text (para st)"
    using rt id t by simp
  moreover have "13 \<notin> set (plain_text (para (split_at mode i s idx ?t ?st1)))"
    using pt cr nt id by (auto dest: in_set_takeD in_set_dropD)
  ultimately show ?thesis using splice(1) lb by auto
next
  case (raise p' s idx)
  with lb show ?thesis by simp
qed

lemma while_runs_restored:
  assumes r: "while_runs mode ss i st = Some (Inr st')" and cr: "13 \<notin> set (plain_text (para st))"
  shows "restored_text (para st') = restored_text (para st)"
proof -
  let ?I = "\<lambda>(i::nat) s. restored_text (para s) = restored_text (para st)
              \<and> 13 \<notin> set (plain_text (para s))"
  have "\<exists>i'. ?I i' st' \<and> \<not> i' < length (runs (para st'))"
  proof (rule while_runs_rule [OF r, where I = ?I])
    show "?I i st" using cr by simp
  next
    fix j j' and s s1 :: state
    assume "?I j s" and "j < length (runs (para s))" and "loop_body mode ss j s = Inr (j', s1)"
    with loop_body_restored [of j s mode ss j' s1] show "?I j' s1" by simp
  qed
  then show ?thesis by blast
qed

lemma for_paragraphs_Cons_Inr:
  assumes "for_paragraphs mode ss (pg # doc) g p = Some (Inr (doc', g', p'))"
  obtains st rest where
    "while_runs mode ss 0 \<lparr>para = pg, global_applied = g, items_applied_on_page = p\<rparr>
       = Some (Inr st)"
    "for_paragraphs mode ss doc (global_applied st) (items_applied_on_page st)
       = Some (Inr (rest, g', p'))"
    "doc' = para st # rest"
  using assms by (auto split: option.splits sum.splits)

lemma apply_Inr:
  assumes "apply_ruby_to_document doc ss mode = Some (Inr doc')"
  obtains g' p' where
    "for_paragraphs mode (sorted_settings_of ss) doc (fresh_tracker ss)
       (fresh_tracker (sorted_settings_of ss)) = Some (Inr (doc', g', p'))"
  using assms by (auto simp: apply_ruby_to_document_def Let_def split: option.splits sum.splits)

lemma for_paragraphs_restored:
  assumes "for_paragraphs mode ss doc g p = Some (Inr (doc', g', p'))"
    and "\<forall>pg\<in>set doc. 13 \<notin> set (plain_text pg)"
  shows "map restored_text doc' = map restored_text doc"
  using assms
proof (induction doc arbitrary: g p doc' g' p')
  case Nil
  then show ?case by simp
next
  case (Cons pg doc)
  from Cons.prems(1) obtain st rest where
    st: "while_runs mode ss 0 \<lparr>para = pg, global_applied = g, items_applied_on_page = p\<rparr>
           = Some (Inr st)"
    and rest: "for_paragraphs mode ss doc (global_applied st) (items_applied_on_page st)
                 = Some (Inr (rest, g', p'))"
    and doc': "doc' = para st # rest"
    by (rule for_paragraphs_Cons_Inr)
  from while_runs_restored [OF st] Cons.prems(2) have "restored_text (para st) = restored_text pg"
    by simp
  moreover from Cons.IH [OF rest] Cons.prems(2) have "map restored_text rest = map restored_text doc"
    by simp
  ultimately show ?case using doc' by simp
qed

lemma restored_text_no_annotation:
  "\<forall>c\<in>set (children pg). tag c \<noteq> ''w:ruby'' \<Longrightarrow> restored_text pg = plain_text pg"
proof -
  have "\<forall>c\<in>set cs. tag c \<noteq> ''w:ruby'' \<Longrightarrow>
        concat (map restored_item cs) = concat (map run_text (filter is_run cs))" for cs
    by (induction cs) (simp_all add: restored_item_def)
  then show "\<forall>c\<in>set (children pg). tag c \<noteq> ''w:ruby'' \<Longrightarrow> restored_text pg = plain_text pg"
    by (simp add: restored_text_def plain_text_def runs_def)
qed

lemmas eval_simps = apply_ruby_to_document_def sorted_settings_of_def fresh_tracker_def
  while_runs.simps loop_body_def runs_def is_run_def run_text_def child_text_def
  apply_match_def make_after_run_def run_set_text_def clear_content_def set_children_def
  set_text_def set_attr_def append_def OxmlElement_def insert_after_def rPr_def
  create_ruby_element_def applied_def flush_def add_t_def strip_def py_isspace_def
  xml_char_def contains_def text_has_marker_def attr_has_marker_def
  marker_lastRendered_def marker_type_page_def Let_def
  w_t_def w_r_def w_p_def kagi_def plain_text_def restored_text_def restored_item_def
  annotation_word_def count_annotations_def unmei_def inochi_def ruby_node_def

lemma applied_fresh_tracker [simp]: "\<not> applied (fresh_tracker ss) w"
  by (auto simp: applied_def fresh_tracker_def dest!: map_of_SomeD)

lemma applied_upd [simp]: "applied (g(v \<mapsto> True)) w = (v = w \<or> applied g w)"
  by (auto simp: applied_def)




lemma find_match_other_mode:
  assumes "mode \<noteq> ''once''" "mode \<noteq> ''per_page''"
  shows "find_match mode g p t ss = find_match ''all'' g p t ss"
  using assms by (induction ss) (simp_all split: option.split)

lemma apply_match_other_mode:
  assumes "mode \<noteq> ''once''" "mode \<noteq> ''per_page''"
  shows "apply_match mode i s idx t st = apply_match ''all'' i s idx t st"
  using assms by (simp add: apply_match_def)

lemma loop_body_other_mode:
  assumes "mode \<noteq> ''once''" "mode \<noteq> ''per_page''"
  shows "loop_body mode ss i st = loop_body ''all'' ss i st"
  unfolding loop_body_def Let_def
  by (simp add: find_match_other_mode [OF assms] apply_match_other_mode [OF assms]
      split: option.split)

lemma while_runs_mode_le:
  assumes lb: "\<And>i st. loop_body m1 ss i st = loop_body m2 ss i st"
    and r: "while_runs m1 ss i st = Some y"
  shows "while_runs m2 ss i st = Some y"
proof -
  let ?P = "\<lambda>m s i st (y :: error + state). m = m1 \<longrightarrow> s = ss \<longrightarrow> while_runs m2 ss i st = Some y"
  have "?P m1 ss i st y"
  proof (rule while_runs.raw_induct [where P = ?P, OF _ r])
    fix w m s j t y
    assume IH: "\<And>m s j t y. w m s j t = Some y \<Longrightarrow> ?P m s j t y"
      and eq: "(if j < length (runs (para t))
                then case loop_body m s j t of Inl e \<Rightarrow> Some (Inl e)
                     | Inr (i', st') \<Rightarrow> w m s i' st'
                else Some (Inr t)) = Some y"
    show "?P m s j t y"
    proof (intro impI)
      assume m: "m = m1" and s: "s = ss"
      show "while_runs m2 ss j t = Some y"
      proof (cases "j < length (runs (para t))")
        case True
        show ?thesis
        proof (cases "loop_body m s j t")
          case (Inl e)
          with eq True have "y = Inl e" by simp
          with Inl True m s lb [of j t] show ?thesis by (simp add: while_runs_raise)
        next
          case (Inr b)
          obtain i' st1 where b: "b = (i', st1)" by (cases b)
          with Inr eq True have "w m s i' st1 = Some y" by simp
          from IH [OF this] m s have "while_runs m2 ss i' st1 = Some y" by simp
          with Inr b True m s lb [of j t] show ?thesis by (simp add: while_runs_step)
        qed
      next
        case False
        with eq show ?thesis by (simp add: while_runs_done)
      qed
    qed
  qed
  then show ?thesis by simp
qed

lemma while_runs_other_mode:
  assumes "mode \<noteq> ''once''" "mode \<noteq> ''per_page''"
  shows "while_runs mode ss i st = while_runs ''all'' ss i st"
proof (cases "while_runs mode ss i st")
  case (Some y)
  from while_runs_mode_le [OF loop_body_other_mode [OF assms] Some] Some show ?thesis by simp
next
  case None
  show ?thesis
  proof (cases "while_runs ''all'' ss i st")
    case (Some y)
    from while_runs_mode_le [OF loop_body_other_mode [OF assms, symmetric] Some] None
    show ?thesis by simp
  next
    case n: None
    with None show ?thesis by simp
  qed
qed

lemma for_paragraphs_other_mode:
  assumes "mode \<noteq> ''once''" "mode \<noteq> ''per_page''"
  shows "for_paragraphs mode ss doc g p = for_paragraphs ''all'' ss doc g p"
  by (induction doc arbitrary: g p)
     (simp_all add: while_runs_other_mode [OF assms] split: option.split sum.split)

lemma apply_other_mode:
  assumes "mode \<noteq> ''once''" "mode \<noteq> ''per_page''"
  shows "apply_ruby_to_document doc ss mode = apply_ruby_to_document doc ss ''all''"
  by (simp add: apply_ruby_to_document_def for_paragraphs_other_mode [OF assms])





lemma while_runs_no_settings:
  "\<exists>st'. while_runs mode [] i st = Some (Inr st') \<and> para st' = para st
     \<and> global_applied st' = global_applied st"
proof -
  have "rules_compatible []" by (simp add: rules_compatible_def)
  have "\<exists>r. while_runs mode [] i st = Some r \<and> (\<not> False \<longrightarrow> (\<exists>st'. r = Inr st'))"
  proof (rule while_runs_total [where Inv = "\<lambda>i st. True" and R = "measure (\<lambda>(i, st). length (runs (para st)) - i)"])
    fix j and s :: state
    assume j: "j < length (runs (para s))"
    then show "case loop_body mode [] j s of Inl e \<Rightarrow> False
          | Inr (i', st1) \<Rightarrow> ((i', st1), (j, s)) \<in> measure (\<lambda>(i, st). length (runs (para st)) - i) \<and> True"
      by (cases rule: loop_body_cases [of mode "[]" j s]) auto
  qed simp_all
  then obtain st' where r: "while_runs mode [] i st = Some (Inr st')" by auto
  let ?I = "\<lambda>(i::nat) s. para s = para st \<and> global_applied s = global_applied st"
  have "\<exists>i'. ?I i' st' \<and> \<not> i' < length (runs (para st'))"
  proof (rule while_runs_rule [OF r, where I = ?I])
    show "?I i st" by simp
  next
    fix j j' and s s1 :: state
    assume "?I j s" and "j < length (runs (para s))" and "loop_body mode [] j s = Inr (j', s1)"
    then show "?I j' s1"
      by (cases rule: loop_body_cases [of mode "[]" j s]) auto
  qed
  with r show ?thesis by blast
qed

lemma for_paragraphs_no_settings:
  "\<exists>g' p'. for_paragraphs mode [] doc g p = Some (Inr (doc, g', p'))"
proof (induction doc arbitrary: g p)
  case Nil
  show ?case by simp
next
  case (Cons pg doc)
  from while_runs_no_settings [of mode 0 "\<lparr>para = pg, global_applied = g, items_applied_on_page = p\<rparr>"]
  obtain st where st: "while_runs mode [] 0 \<lparr>para = pg, global_applied = g,
      items_applied_on_page = p\<rparr> = Some (Inr st)" "para st = pg" by auto
  from Cons.IH [of "global_applied st" "items_applied_on_page st"] obtain g' p' where
    "for_paragraphs mode [] doc (global_applied st) (items_applied_on_page st)
       = Some (Inr (doc, g', p'))"
    by blast
  with st show ?case by simp
qed

lemma apply_no_settings: "apply_ruby_to_document doc [] mode = Some (Inr doc)"
  using for_paragraphs_no_settings [of mode doc "fresh_tracker []" "fresh_tracker []"]
  by (auto simp: apply_ruby_to_document_def sorted_settings_of_def)

lemma sorted_settings_sorted:
  "sorted (map (\<lambda>x. - int (length (word x))) (sorted_settings_of ss))"
  by (simp add: sorted_settings_of_def)

lemma sorted_settings_split:
  assumes "sorted_settings_of ss = pre @ s # post"
  shows "(\<forall>r\<in>set pre. length (word s) \<le> length (word r))
       \<and> (\<forall>r\<in>set post. length (word r) \<le> length (word s))"
  using sorted_settings_sorted [of ss] unfolding assms
  by (auto simp: sorted_append)

lemma text_element_t_element [simp]: "text_element (t_element b)"
  by (simp add: text_element_def t_element_def)

lemma text_element_content: "\<forall>c\<in>set (text_content bfr s). text_element c"
proof (induction s arbitrary: bfr)
  case Nil
  show ?case by simp
next
  case (Cons c cs)
  have "text_element (OxmlElement ''w:tab'')" "text_element (OxmlElement ''w:br'')"
    by (simp_all add: text_element_def)
  with Cons show ?case by auto
qed

lemma children_with_text:
  "children (with_text r s)
     = filter (\<lambda>e. tag e = ''w:rPr'') (children r) @ text_content [] s"
  by (simp add: with_text_def)

lemma find_rPr_content: "find (\<lambda>e. tag e = ''w:rPr'') (text_content bfr s) = None"
  using text_element_content [of bfr s] by (auto simp: find_None_iff text_element_def)

lemma find_filter_append:
  "find P (filter P xs @ ys) = (case find P xs of None \<Rightarrow> find P ys | Some x \<Rightarrow> Some x)"
  by (induction xs) auto

lemma rPr_with_text [simp]: "rPr (with_text r s) = rPr r"
  by (simp add: rPr_def children_with_text find_filter_append find_rPr_content
      split: option.split)

lemma children_after_run:
  "children (after_run r s)
     = (case rPr r of None \<Rightarrow> [] | Some pr \<Rightarrow> [pr])
       @ [Elem ''w:t'' (if s \<noteq> [] \<and> (hd s = 32 \<or> last s = 32)
                        then [(''xml:space'', ''preserve'')] else []) s [] []]"
  by (simp add: after_run_def)

lemma run_index_at:
  "is_run r \<Longrightarrow> run_index (pre @ r # post) (length (filter is_run pre)) = length pre"
  by (induction pre) simp_all






lemma str_find_prefix: "str_find t w = Some idx \<Longrightarrow> prefix w (drop idx t)"
proof -
  assume a: "str_find t w = Some idx"
  from str_find_Some [OF a] str_find_bound [OF a]
  have "drop idx t = w @ drop (idx + length w) t"
    by (metis append_eq_conv_conj length_take min.absorb2 add_leD1)
  then show ?thesis by (simp add: prefix_def)
qed

lemma str_find_iff:
  "str_find t w = Some idx \<longleftrightarrow>
     idx \<le> length t \<and> prefix w (drop idx t) \<and> (\<forall>j<idx. \<not> prefix w (drop j t))"
proof
  assume a: "str_find t w = Some idx"
  from str_find_bound [OF a] have "idx \<le> length t" by simp
  with str_find_prefix [OF a] str_find_least [OF a]
  show "idx \<le> length t \<and> prefix w (drop idx t) \<and> (\<forall>j<idx. \<not> prefix w (drop j t))" by blast
next
  assume b: "idx \<le> length t \<and> prefix w (drop idx t) \<and> (\<forall>j<idx. \<not> prefix w (drop j t))"
  show "str_find t w = Some idx"
  proof (cases "str_find t w")
    case None
    from str_find_None [OF this, of idx] b show ?thesis by simp
  next
    case (Some k)
    from str_find_prefix [OF Some] str_find_least [OF Some, of idx] b
    have "k = idx" by (metis linorder_neqE_nat)
    with Some show ?thesis by simp
  qed
qed

lemma str_find_None_iff: "str_find t w = None \<longleftrightarrow> (\<forall>j. \<not> prefix w (drop j t))"
proof
  assume "str_find t w = None"
  then show "\<forall>j. \<not> prefix w (drop j t)" by (auto dest: str_find_None)
next
  assume a: "\<forall>j. \<not> prefix w (drop j t)"
  show "str_find t w = None"
  proof (cases "str_find t w")
    case None
    then show ?thesis .
  next
    case (Some k)
    from str_find_prefix [OF Some] a show ?thesis by blast
  qed
qed















lemma set_children_id [simp]: "set_children pg (children pg) = pg"
  by (cases pg) (simp add: set_children_def)

lemma set_children_twice [simp]: "set_children (set_children pg cs) ds = set_children pg ds"
  by (simp add: set_children_def)




section \<open>The annotation builder\<close>

text \<open>
  C8, as amended. For every word and reading that are XML-compatible (every code point
  a tab, a line feed, a carriage return or at least U+0020, no surrogate, not U+FFFE,
  not U+FFFF), \<open>create_ruby_element\<close> returns a \<open>w:ruby\<close> container with
  exactly three children, in this order: the properties block \<open>w:rubyPr\<close>, the
  reading \<open>w:rt\<close> holding exactly one run whose only child is a \<open>w:t\<close> with the
  reading as text, and the base \<open>w:rubyBase\<close> holding exactly one run whose only child
  is a \<open>w:t\<close> with the word as text. For any other word or reading it returns
  nothing: it raises \<open>ValueError\<close>.
\<close>

theorem create_ruby_element_shape:
  "(xml_compatible w \<and> xml_compatible rd \<longrightarrow>
      (\<exists>pr rt rb t_rt t_base.
         create_ruby_element w rd = Inr (Elem ''w:ruby'' [] [] [pr, rt, rb] [])
         \<and> tag pr = ''w:rubyPr''
         \<and> tag rt = ''w:rt'' \<and> children rt = [Elem ''w:r'' [] [] [t_rt] []]
         \<and> tag t_rt = ''w:t'' \<and> etext t_rt = rd \<and> children t_rt = []
         \<and> tag rb = ''w:rubyBase'' \<and> children rb = [Elem ''w:r'' [] [] [t_base] []]
         \<and> tag t_base = ''w:t'' \<and> etext t_base = w \<and> children t_base = []))
   \<and> (\<not> (xml_compatible w \<and> xml_compatible rd) \<longrightarrow>
        create_ruby_element w rd = Inl ValueError)"
  by (simp add: create_ruby_element_eq ruby_node_def)

theorem create_ruby_element_shape_witness:
  "xml_compatible [0x9375] \<and> xml_compatible [0x304B, 0x304E]
   \<and> (\<exists>pr rt rb t_rt t_base.
         create_ruby_element [0x9375] [0x304B, 0x304E]
           = Inr (Elem ''w:ruby'' [] [] [pr, rt, rb] [])
         \<and> tag pr = ''w:rubyPr''
         \<and> tag rt = ''w:rt'' \<and> children rt = [Elem ''w:r'' [] [] [t_rt] []]
         \<and> tag t_rt = ''w:t'' \<and> etext t_rt = [0x304B, 0x304E] \<and> children t_rt = []
         \<and> tag rb = ''w:rubyBase'' \<and> children rb = [Elem ''w:r'' [] [] [t_base] []]
         \<and> tag t_base = ''w:t'' \<and> etext t_base = [0x9375] \<and> children t_base = [])"
proof -
  have c: "xml_compatible [0x9375] \<and> xml_compatible [0x304B, 0x304E]"
    by (simp add: xml_char_def)
  with create_ruby_element_shape [of "[0x9375]" "[0x304B, 0x304E]"] show ?thesis by blast
qed

text \<open>
  C8 as stated speaks of every word and reading. A reading with a control character,
  here the vertical tab U+000B, is refused by lxml when line 57 stores it: the builder
  raises \<open>ValueError\<close> and returns no node. So does a word with the NULL character,
  at line 66.
\<close>

theorem create_ruby_element_raises_counterexample:
  "create_ruby_element [0x9375] [11] = Inl ValueError
   \<and> create_ruby_element [0] [0x304B, 0x304E] = Inl ValueError"
  by (simp add: eval_simps)

section \<open>Termination of the rescan loop\<close>

text \<open>
  C6, as amended. When no rule has an empty word, the \<open>while\<close> loop over the runs
  of a paragraph ends from every index and state, and so does the whole function
  on every document, in every mode: each splice shortens the text of the paragraph's
  runs by the length of the matched word, and each pass without a splice moves the
  index forward. The loop ends by returning or by the \<open>ValueError\<close> of a string
  that lxml refuses; when the words and readings of the rules and the texts of the
  runs are XML-compatible, it returns.
\<close>

theorem rescan_loop_terminates:
  assumes "\<forall>s\<in>set ss. word s \<noteq> []"
  shows "(\<exists>r. while_runs mode ss i st = Some r)
       \<and> (\<exists>r. apply_ruby_to_document doc ss mode = Some r)
       \<and> (rules_compatible ss \<longrightarrow> xml_compatible (plain_text (para st))
            \<longrightarrow> (\<exists>st'. while_runs mode ss i st = Some (Inr st')))
       \<and> (rules_compatible ss \<longrightarrow> doc_compatible doc
            \<longrightarrow> (\<exists>doc'. apply_ruby_to_document doc ss mode = Some (Inr doc')))"
  using while_runs_terminates [OF assms] apply_terminates [OF assms]
    while_runs_returns [OF assms] apply_returns [OF assms] by blast

theorem rescan_loop_terminates_witness:
  "word \<lparr>word = [0x9375], ruby = [0x304B, 0x304E]\<rparr> \<noteq> []
   \<and> (\<exists>doc'. apply_ruby_to_document
                [Elem ''w:p'' [] [] [Elem ''w:r'' [] [] [Elem ''w:t'' [] [0x9375, 0x9375] [] []] []] []]
                [\<lparr>word = [0x9375], ruby = [0x304B, 0x304E]\<rparr>] ''all'' = Some (Inr doc'))"
proof -
  let ?ss = "[\<lparr>word = [0x9375], ruby = [0x304B, 0x304E]\<rparr>]"
  let ?doc = "[Elem ''w:p'' [] [] [Elem ''w:r'' [] [] [Elem ''w:t'' [] [0x9375, 0x9375] [] []] []] []]"
  have a: "\<forall>s\<in>set ?ss. word s \<noteq> []" by simp
  have b: "rules_compatible ?ss" by (simp add: rules_compatible_def xml_char_def)
  have c: "doc_compatible ?doc"
    by (simp add: doc_compatible_def plain_text_def runs_def is_run_def run_text_def
        child_text_def xml_char_def)
  from rescan_loop_terminates [OF a, of "''all''" _ _ ?doc] b c show ?thesis by simp
qed

text \<open>
  C6 as stated fails for a rule with the empty word: \<open>find\<close> reports the empty
  word at index 0 of every non-empty text, the splice leaves the whole text in the run
  after the annotation, and in \<open>all\<close> mode the restarted scan matches it again, for
  ever. The loop, and with it the whole function, never returns and never raises.
\<close>

theorem rescan_loop_empty_word_counterexample:
  "apply_ruby_to_document
     [Elem ''w:p'' [] [] [Elem ''w:r'' [] [] [Elem ''w:t'' [] [97] [] []] []] []]
     [\<lparr>word = [], ruby = [98]\<rparr>] ''all'' = None"
proof -
  have "while_runs ''all'' [\<lparr>word = [], ruby = [98]\<rparr>] 0
          \<lparr>para = Elem ''w:p'' [] [] [Elem ''w:r'' [] [] [Elem ''w:t'' [] [97] [] []] []] [],
           global_applied = fresh_tracker [\<lparr>word = [], ruby = [98]\<rparr>],
           items_applied_on_page = fresh_tracker [\<lparr>word = [], ruby = [98]\<rparr>]\<rparr> = None"
    by (rule while_runs_empty_word_diverges)
       (simp_all add: plain_text_def runs_def is_run_def run_text_def child_text_def xml_char_def)
  then show ?thesis
    by (simp add: apply_ruby_to_document_def sorted_settings_of_def)
qed

section \<open>Text preservation\<close>

text \<open>
  C3, as amended. When no run of the document contains a carriage return, the function,
  if it returns, leaves the text of every paragraph unchanged once each annotation is
  put back as its base word: the texts of the runs, read in order with every annotation
  contributing its word, are the same before and after. So the texts of the runs alone
  (annotations contributing nothing) are the original text with the word of each applied
  occurrence removed once, at its place. A paragraph without annotation children has its
  plain text as restored text.
\<close>

theorem text_preservation:
  assumes "apply_ruby_to_document doc ss mode = Some (Inr doc')"
    and "\<forall>pg\<in>set doc. 13 \<notin> set (plain_text pg)"
  shows "map restored_text doc' = map restored_text doc
       \<and> (\<forall>pg\<in>set doc. (\<forall>c\<in>set (children pg). tag c \<noteq> ''w:ruby'')
             \<longrightarrow> restored_text pg = plain_text pg)"
proof -
  from assms(1) obtain g' p' where
    "for_paragraphs mode (sorted_settings_of ss) doc (fresh_tracker ss)
       (fresh_tracker (sorted_settings_of ss)) = Some (Inr (doc', g', p'))"
    by (rule apply_Inr)
  from for_paragraphs_restored [OF this assms(2)] restored_text_no_annotation
  show ?thesis by blast
qed

theorem text_preservation_witness:
  "apply_ruby_to_document [w_p [w_r [w_t [97, 0x9375, 98, 0x9375]]]] [kagi] ''all''
     = Some (Inr [w_p [w_r [w_t [97]], ruby_node [0x9375] [0x304B, 0x304E],
                       w_r [w_t [98]], ruby_node [0x9375] [0x304B, 0x304E]]])
   \<and> map plain_text [w_p [w_r [w_t [97, 0x9375, 98, 0x9375]]]] = [[97, 0x9375, 98, 0x9375]]
   \<and> map restored_text [w_p [w_r [w_t [97]], ruby_node [0x9375] [0x304B, 0x304E],
                  w_r [w_t [98]], ruby_node [0x9375] [0x304B, 0x304E]]]
       = [[97, 0x9375, 98, 0x9375]]
   \<and> map plain_text [w_p [w_r [w_t [97]], ruby_node [0x9375] [0x304B, 0x304E],
                  w_r [w_t [98]], ruby_node [0x9375] [0x304B, 0x304E]]]
       = [[97, 98]]"
proof -
  have a: "apply_ruby_to_document [w_p [w_r [w_t [97, 0x9375, 98, 0x9375]]]] [kagi] ''all''
     = Some (Inr [w_p [w_r [w_t [97]], ruby_node [0x9375] [0x304B, 0x304E],
                       w_r [w_t [98]], ruby_node [0x9375] [0x304B, 0x304E]]])"
    by (simp add: eval_simps)
  have b: "\<forall>pg\<in>set [w_p [w_r [w_t [97, 0x9375, 98, 0x9375]]]]. 13 \<notin> set (plain_text pg)"
    by (simp add: eval_simps)
  have c: "map restored_text [w_p [w_r [w_t [97, 0x9375, 98, 0x9375]]]] = [[97, 0x9375, 98, 0x9375]]"
    by (simp add: eval_simps)
  have d: "map plain_text [w_p [w_r [w_t [97]], ruby_node [0x9375] [0x304B, 0x304E],
                  w_r [w_t [98]], ruby_node [0x9375] [0x304B, 0x304E]]]
       = [[97, 98]]"
    by (simp add: eval_simps)
  have e: "map plain_text [w_p [w_r [w_t [97, 0x9375, 98, 0x9375]]]] = [[97, 0x9375, 98, 0x9375]]"
    by (simp add: eval_simps)
  from text_preservation [OF a b] c have
    "map restored_text [w_p [w_r [w_t [97]], ruby_node [0x9375] [0x304B, 0x304E],
                  w_r [w_t [98]], ruby_node [0x9375] [0x304B, 0x304E]]]
       = [[97, 0x9375, 98, 0x9375]]" by simp
  with a d e show ?thesis by simp
qed

text \<open>
  C3 as stated fails on a carriage return in the text before a match: the text
  written back to the truncated run is rebuilt with a \<open>w:br\<close> in its place, which
  reads back as a line feed. The paragraph text CR, kanji becomes LF, not CR.
\<close>

theorem text_preservation_cr_counterexample:
  "apply_ruby_to_document [w_p [w_r [w_t [13, 0x9375]]]] [kagi] ''all''
     = Some (Inr [w_p [w_r [Elem ''w:br'' [] [] [] []], ruby_node [0x9375] [0x304B, 0x304E]]])
   \<and> plain_text (w_p [w_r [w_t [13, 0x9375]]]) = [13, 0x9375]
   \<and> plain_text (w_p [w_r [Elem ''w:br'' [] [] [] []], ruby_node [0x9375] [0x304B, 0x304E]])
       = [10]"
  by (simp add: eval_simps)

section \<open>The \<open>per_page\<close> mode\<close>

text \<open>
  C1 fails on the code. After every splice the loop starts again at the first run of the
  paragraph, and lines 131-134 reset the page dict whenever the run at hand carries a
  page-break marker, also a run that was already passed before the splice. A marker in a
  run that is not itself split is therefore read again at every restart, and each time
  every word becomes eligible again: with a marker in the first run and the word twice
  in the second, both occurrences, on the same page, are annotated.
\<close>

theorem per_page_marker_read_again:
  "apply_ruby_to_document
     [w_p [w_r [Elem ''w:lastRenderedPageBreak'' [] [] [] [], w_t [120]],
           w_r [w_t [0x9375, 0x9375]]]]
     [kagi] ''per_page''
   = Some (Inr [w_p [w_r [Elem ''w:lastRenderedPageBreak'' [] [] [] [], w_t [120]],
                     w_r [], ruby_node [0x9375] [0x304B, 0x304E],
                     w_r [], ruby_node [0x9375] [0x304B, 0x304E]]])"
  by (simp add: eval_simps)

section \<open>Configuration is not checked\<close>

text \<open>
  C2, as amended. The function has no \<open>raise\<close> and tests neither the rule list nor
  the mode: the only error of the model is the \<open>ValueError\<close> of a string that lxml
  refuses, and there is no configuration error. With an empty rule list the function
  returns the document unchanged, whatever the mode string; with a mode string it does
  not know it does what it does for \<open>all\<close>.
\<close>

theorem no_configuration_check:
  "apply_ruby_to_document doc [] mode = Some (Inr doc)
   \<and> (mode \<noteq> ''once'' \<longrightarrow> mode \<noteq> ''per_page'' \<longrightarrow>
        apply_ruby_to_document doc ss mode = apply_ruby_to_document doc ss ''all'')"
  using apply_no_settings [of doc mode] apply_other_mode [of mode doc ss] by blast

theorem no_configuration_check_witness:
  "apply_ruby_to_document [w_p [w_r [w_t [0x9375]]]] [] ''every''
     = Some (Inr [w_p [w_r [w_t [0x9375]]]])
   \<and> apply_ruby_to_document [w_p [w_r [w_t [0x9375]]]] [kagi] ''every''
       = apply_ruby_to_document [w_p [w_r [w_t [0x9375]]]] [kagi] ''all''"
  using no_configuration_check [of "[w_p [w_r [w_t [0x9375]]]]" "''every''" "[kagi]"]
  by simp

text \<open>
  C2 as stated fails: called with a rule whose reading is empty and a mode string that
  is none of the three, the function returns normally, with the document rewritten.
\<close>

theorem no_configuration_error_counterexample:
  "apply_ruby_to_document [w_p [w_r [w_t [0x9375, 97]]]]
     [\<lparr>word = [0x9375], ruby = []\<rparr>] ''every''
   = Some (Inr [w_p [w_r [], ruby_node [0x9375] [], w_r [w_t [97]]]])"
  by (simp add: eval_simps)

section \<open>The run after the annotation\<close>

text \<open>
  C7, as amended. Let the children of the paragraph be \<open>pre @ r # post\<close> with
  \<open>r\<close> its \<open>i\<close>-th run. A split whose strings lxml accepts completes, and after it
  the children are \<open>pre\<close>, the run \<open>r\<close> truncated to the text before the match,
  the annotation and, only when the text after the match is not empty, a new run right
  after the annotation, then \<open>post\<close>. The new run holds the \<open>w:rPr\<close> of \<open>r\<close>,
  if it has one, and one \<open>w:t\<close> with the text after the match, marked
  \<open>xml:space="preserve"\<close> exactly when that text starts or ends with the space
  character U+0020. A split with a string that lxml refuses raises \<open>ValueError\<close>.
\<close>

theorem after_run_of_split:
  assumes "children (para st) = pre @ r # post" and "is_run r"
    and "length (filter is_run pre) = i"
  shows "if split_compatible s idx t
         then \<exists>st' run_xml ruby_elem.
           apply_match mode i s idx t st = Inr st'
           \<and> run_set_text r (take idx t) = Inr run_xml
           \<and> create_ruby_element (word s) (ruby s) = Inr ruby_elem
           \<and> children (para st')
              = pre @ [run_xml, ruby_elem]
                @ (if drop (idx + length (word s)) t = [] then []
                   else [Elem ''w:r'' [] []
                           ((case rPr r of None \<Rightarrow> [] | Some pr \<Rightarrow> [pr])
                            @ [Elem ''w:t''
                                 (if hd (drop (idx + length (word s)) t) = 32
                                     \<or> last (drop (idx + length (word s)) t) = 32
                                  then [(''xml:space'', ''preserve'')] else [])
                                 (drop (idx + length (word s)) t) [] []]) []])
                @ post
         else apply_match mode i s idx t st = Inl ValueError"
proof -
  have "length pre = run_index (children (para st)) i"
    unfolding assms(1) assms(3) [symmetric] using run_index_at [OF assms(2)] by simp
  from children_split_at [OF assms(1) this, of mode s idx t] show ?thesis
    by (simp add: apply_match_eq run_set_text_eq create_ruby_element_eq split_compatible_def
        spliced_def after_run_def)
qed

theorem after_run_of_split_witness:
  "\<exists>st'. apply_match ''all'' 0 kagi 1 [97, 0x9375, 32, 98]
      \<lparr>para = w_p [Elem ''w:r'' [] [] [Elem ''w:rPr'' [] [] [Elem ''w:b'' [] [] [] []] [],
                                       w_t [97, 0x9375, 32, 98]] []],
       global_applied = fresh_tracker [kagi], items_applied_on_page = fresh_tracker [kagi]\<rparr>
     = Inr st'
   \<and> children (para st')
     = [Elem ''w:r'' [] [] [Elem ''w:rPr'' [] [] [Elem ''w:b'' [] [] [] []] [], w_t [97]] [],
        ruby_node [0x9375] [0x304B, 0x304E],
        Elem ''w:r'' [] [] [Elem ''w:rPr'' [] [] [Elem ''w:b'' [] [] [] []] [],
                            Elem ''w:t'' [(''xml:space'', ''preserve'')] [32, 98] [] []] []]"
proof -
  let ?r = "Elem ''w:r'' [] [] [Elem ''w:rPr'' [] [] [Elem ''w:b'' [] [] [] []] [],
                                w_t [97, 0x9375, 32, 98]] []"
  let ?st = "\<lparr>para = w_p [?r], global_applied = fresh_tracker [kagi],
              items_applied_on_page = fresh_tracker [kagi]\<rparr>"
  have a: "children (para ?st) = [] @ ?r # []" by (simp add: w_p_def)
  have b: "is_run ?r" by (simp add: is_run_def)
  have c: "length (filter is_run []) = 0" by simp
  have d: "split_compatible kagi 1 [97, 0x9375, 32, 98]"
    by (simp add: split_compatible_def kagi_def xml_char_def)
  from after_run_of_split [OF a b c, of kagi 1 "[97, 0x9375, 32, 98]" "''all''"] d
  show ?thesis by (simp add: eval_simps)
qed

text \<open>
  C7 as stated speaks of whitespace. The code tests for the space character only: a
  text after the match that starts with a tab (whitespace for \<open>str.isspace\<close>) gets a
  \<open>w:t\<close> without the mark.
\<close>

theorem after_run_tab_counterexample:
  "apply_ruby_to_document
     [w_p [w_r [w_t [0x9375], Elem ''w:tab'' [] [] [] [], w_t [97]]]] [kagi] ''all''
   = Some (Inr [w_p [w_r [], ruby_node [0x9375] [0x304B, 0x304E],
                     w_r [Elem ''w:t'' [] [9, 97] [] []]]])
   \<and> py_isspace (hd [9, 97])"
  by (simp add: eval_simps)

section \<open>What a split run keeps\<close>

text \<open>
  C10, as amended. The truncated run keeps the \<open>w:rPr\<close> of the original run (its
  formatting, which the text setter does not remove); its other children are rebuilt
  from the text before the match alone. Every child of the truncated run and of the run
  after the annotation is a \<open>w:rPr\<close> or a text element (\<open>w:t\<close>, \<open>w:tab\<close>, or
  a \<open>w:br\<close> without type, which is a line break). Any other child of the original
  run, a page-break marker among them, is in neither.
\<close>

theorem split_runs_keep_text_only:
  assumes "run_set_text r before = Inr run_xml"
  shows "(\<exists>cs. append_to_run_from_text [] before = Inr cs
            \<and> children run_xml = filter (\<lambda>e. tag e = ''w:rPr'') (children r) @ cs)
   \<and> (\<forall>c\<in>set (children run_xml). tag c = ''w:rPr'' \<or> text_element c)
   \<and> (\<forall>new_run. make_after_run run_xml after = Inr new_run
         \<longrightarrow> (\<forall>c\<in>set (children new_run). tag c = ''w:rPr'' \<or> text_element c))"
proof -
  from assms have c: "xml_compatible before" and rx: "run_xml = with_text r before"
    by (auto simp: run_set_text_eq split: if_splits)
  have 0: "\<exists>cs. append_to_run_from_text [] before = Inr cs
            \<and> children run_xml = filter (\<lambda>e. tag e = ''w:rPr'') (children r) @ cs"
    using c rx by (simp add: append_to_run_from_text_eq children_with_text)
  have 1: "\<forall>c\<in>set (children run_xml). tag c = ''w:rPr'' \<or> text_element c"
    using text_element_content [of "[]" before] rx by (auto simp: children_with_text)
  have 2: "\<forall>c\<in>set (children new_run). tag c = ''w:rPr'' \<or> text_element c"
    if "make_after_run run_xml after = Inr new_run" for new_run
  proof -
    from that have n: "new_run = after_run (with_text r before) after"
      by (auto simp: make_after_run_eq rx split: if_splits)
    show ?thesis
    proof (cases "rPr r")
      case None
      then show ?thesis by (simp add: n children_after_run text_element_def)
    next
      case (Some pr)
      with rPr_tag [OF Some] show ?thesis
        by (simp add: n children_after_run text_element_def)
    qed
  qed
  from 0 1 2 show ?thesis by blast
qed

theorem split_runs_keep_text_only_witness:
  "run_set_text
      (w_r [Elem ''w:lastRenderedPageBreak'' [] [] [] [], Elem ''w:drawing'' [] [] [] [],
            w_t [97, 0x9375]]) [97] = Inr (w_r [w_t [97]])
   \<and> list_all (\<lambda>c. tag c = ''w:rPr'' \<or> text_element c) (children (w_r [w_t [97]]))"
proof -
  have a: "run_set_text
      (w_r [Elem ''w:lastRenderedPageBreak'' [] [] [] [], Elem ''w:drawing'' [] [] [] [],
            w_t [97, 0x9375]]) [97] = Inr (w_r [w_t [97]])"
    by (simp add: eval_simps)
  from split_runs_keep_text_only [OF a, of "[]"]
  have "list_all (\<lambda>c. tag c = ''w:rPr'' \<or> text_element c) (children (w_r [w_t [97]]))"
    unfolding list_all_iff by blast
  with a show ?thesis by simp
qed

text \<open>
  C10 as stated says that every non-text child of the original run is removed. The
  \<open>w:rPr\<close> is not: a bold run with a page break, split at the word, gives a run before
  and a run after the annotation that both hold the \<open>w:rPr\<close>; the page break is in
  neither.
\<close>

theorem split_runs_keep_rPr_counterexample:
  "apply_ruby_to_document
     [w_p [w_r [Elem ''w:rPr'' [] [] [Elem ''w:b'' [] [] [] []] [],
                Elem ''w:br'' [(''w:type'', ''page'')] [] [] [],
                w_t [97, 0x9375, 98]]]] [kagi] ''all''
   = Some (Inr [w_p [w_r [Elem ''w:rPr'' [] [] [Elem ''w:b'' [] [] [] []] [], w_t [97]],
                     ruby_node [0x9375] [0x304B, 0x304E],
                     w_r [Elem ''w:rPr'' [] [] [Elem ''w:b'' [] [] [] []] [], w_t [98]]]])
   \<and> child_text (Elem ''w:rPr'' [] [] [Elem ''w:b'' [] [] [] []] []) = []"
  by (simp add: eval_simps)

section \<open>The \<open>once\<close> mode\<close>




section \<open>Longest match first\<close>

text \<open>
  C4. The rules are tried in the order of \<open>sorted_settings\<close>, longest word first, and
  the first one that the mode does not skip and whose word occurs in the run's text wins.
  The scan returns no rule exactly when every rule is skipped or its word does not occur
  in the text, so it returns one whenever the word of an eligible rule occurs. When it
  returns a rule, every rule before it in the sorted list is at least as long and was
  skipped or does not occur, every rule after it is at most as long, and the returned
  index is that of the first occurrence of its word. So no eligible rule whose word
  occurs in the text is longer than the winner; in particular a word that is a part of a
  longer eligible word occurring in the text never wins over it. The search itself
  returns the least index at which the word is a prefix of the rest of the text, and
  nothing exactly when there is no such index. The example after it is the spec's: the
  two rules and the two-kanji text give exactly one annotation, of the longer word.
\<close>

theorem longest_first_scan:
  "(find_match mode g p t (sorted_settings_of ss) = None
      \<longleftrightarrow> (\<forall>r\<in>set ss. skipped mode g p (word r) \<or> str_find t (word r) = None))
   \<and> (\<forall>s idx. find_match mode g p t (sorted_settings_of ss) = Some (s, idx) \<longrightarrow>
         (\<exists>pre post. sorted_settings_of ss = pre @ s # post
            \<and> (\<forall>r\<in>set pre. length (word s) \<le> length (word r)
                  \<and> (skipped mode g p (word r) \<or> str_find t (word r) = None))
            \<and> (\<forall>r\<in>set post. length (word r) \<le> length (word s))
            \<and> \<not> skipped mode g p (word s) \<and> str_find t (word s) = Some idx
            \<and> (\<forall>r\<in>set ss. \<not> skipped mode g p (word r) \<and> str_find t (word r) \<noteq> None
                  \<longrightarrow> length (word r) \<le> length (word s))))
   \<and> (str_find t w = Some i
        \<longleftrightarrow> i \<le> length t \<and> prefix w (drop i t) \<and> (\<forall>j<i. \<not> prefix w (drop j t)))
   \<and> (str_find t w = None \<longleftrightarrow> (\<forall>j. \<not> prefix w (drop j t)))"
proof -
  have 1: "find_match mode g p t (sorted_settings_of ss) = None
      \<longleftrightarrow> (\<forall>r\<in>set ss. skipped mode g p (word r) \<or> str_find t (word r) = None)"
  proof
    assume "find_match mode g p t (sorted_settings_of ss) = None"
    from find_match_None [OF this]
    show "\<forall>r\<in>set ss. skipped mode g p (word r) \<or> str_find t (word r) = None" by simp
  next
    assume "\<forall>r\<in>set ss. skipped mode g p (word r) \<or> str_find t (word r) = None"
    then have "\<forall>r\<in>set (sorted_settings_of ss).
                 skipped mode g p (word r) \<or> str_find t (word r) = None" by simp
    then show "find_match mode g p t (sorted_settings_of ss) = None"
      by (rule find_match_NoneI)
  qed
  have 2: "\<exists>pre post. sorted_settings_of ss = pre @ s # post
            \<and> (\<forall>r\<in>set pre. length (word s) \<le> length (word r)
                  \<and> (skipped mode g p (word r) \<or> str_find t (word r) = None))
            \<and> (\<forall>r\<in>set post. length (word r) \<le> length (word s))
            \<and> \<not> skipped mode g p (word s) \<and> str_find t (word s) = Some idx
            \<and> (\<forall>r\<in>set ss. \<not> skipped mode g p (word r) \<and> str_find t (word r) \<noteq> None
                  \<longrightarrow> length (word r) \<le> length (word s))"
    if a: "find_match mode g p t (sorted_settings_of ss) = Some (s, idx)" for s idx
  proof -
    from find_match_Some [OF a] obtain pre post where
      sp: "sorted_settings_of ss = pre @ s # post"
      and el: "\<not> skipped mode g p (word s)" "str_find t (word s) = Some idx"
      and pre: "\<forall>r\<in>set pre. skipped mode g p (word r) \<or> str_find t (word r) = None"
      by blast
    from sorted_settings_split [OF sp] have
      len: "\<forall>r\<in>set pre. length (word s) \<le> length (word r)"
           "\<forall>r\<in>set post. length (word r) \<le> length (word s)" by simp_all
    have "set ss = set pre \<union> {s} \<union> set post"
      using sp set_sorted_settings_of [of ss] by simp
    with pre len have "\<forall>r\<in>set ss. \<not> skipped mode g p (word r) \<and> str_find t (word r) \<noteq> None
              \<longrightarrow> length (word r) \<le> length (word s)" by auto
    with sp el pre len show ?thesis
      by (intro exI [of _ pre] exI [of _ post]) simp
  qed
  from 1 2 str_find_iff [of t w i] str_find_None_iff [of t w] show ?thesis by blast
qed

theorem longest_first_scan_witness:
  "find_match ''all'' (fresh_tracker [inochi, unmei]) (fresh_tracker [unmei, inochi])
      [0x904B, 0x547D] (sorted_settings_of [inochi, unmei]) = Some (unmei, 0)
   \<and> sorted_settings_of [inochi, unmei] = [unmei, inochi]
   \<and> length (word inochi) \<le> length (word unmei)
   \<and> prefix (word unmei) (drop 0 [0x904B, 0x547D])
   \<and> apply_ruby_to_document [w_p [w_r [w_t [0x904B, 0x547D]]]] [inochi, unmei] ''all''
       = Some (Inr [w_p [w_r [], ruby_node [0x904B, 0x547D] [0x3055, 0x3060, 0x3081]]])"
proof -
  have a: "find_match ''all'' (fresh_tracker [inochi, unmei]) (fresh_tracker [unmei, inochi])
      [0x904B, 0x547D] (sorted_settings_of [inochi, unmei]) = Some (unmei, 0)"
    by (simp add: eval_simps)
  have b: "sorted_settings_of [inochi, unmei] = [unmei, inochi]"
    by (simp add: eval_simps)
  have c: "\<not> skipped ''all'' (fresh_tracker [inochi, unmei]) (fresh_tracker [unmei, inochi])
             (word inochi)"
    by (simp add: skipped_def)
  have d: "str_find [0x904B, 0x547D] (word inochi) \<noteq> None"
    by (simp add: eval_simps)
  have e: "apply_ruby_to_document [w_p [w_r [w_t [0x904B, 0x547D]]]] [inochi, unmei] ''all''
       = Some (Inr [w_p [w_r [], ruby_node [0x904B, 0x547D] [0x3055, 0x3060, 0x3081]]])"
    by (simp add: eval_simps)
  have f: "str_find [0x904B, 0x547D] (word unmei) = Some 0"
    by (simp add: eval_simps)
  note inst = longest_first_scan [of "''all''" "fresh_tracker [inochi, unmei]"
      "fresh_tracker [unmei, inochi]" "[0x904B, 0x547D]" "[inochi, unmei]" "word unmei" 0]
  from inst a c d have "length (word inochi) \<le> length (word unmei)" by auto
  moreover from inst f have "prefix (word unmei) (drop 0 [0x904B, 0x547D])" by blast
  ultimately show ?thesis using a b e by simp
qed

section \<open>Modes other than \<open>once\<close> and \<open>per_page\<close>\<close>




end
